theory Spec2Isabelle
  imports Main "HOL-Library.Word"
begin

section \<open>Check outcomes (internal/graph/check.go)\<close>

text \<open>
  Go errors are values. The evaluator creates two of its own with \<open>fmt.Errorf\<close>
  (\<open>Err msg\<close>), inspects the storage sentinels \<open>ErrNotFound\<close> and
  \<open>ErrIteratorDone\<close>, and hands on what \<open>ctx.Err()\<close> returns.
\<close>

datatype goerror =
    Err string
  | ErrNotFound
  | ErrIteratorDone
  | Canceled
  | DeadlineExceeded

record CheckResponse =
  Allowed :: bool

text \<open>
  \<open>resp.GetAllowed()\<close> is the generated getter: it answers false on a nil response.
\<close>

definition GetAllowed :: "CheckResponse option \<Rightarrow> bool" where
  "GetAllowed r = (case r of None \<Rightarrow> False | Some x \<Rightarrow> Allowed x)"

text \<open>
  What a call yields: the pair \<open>(resp, err)\<close> it returns, a panic, or nothing at all
  because the goroutine waits forever.
\<close>

datatype exec =
    Returned "CheckResponse option" "goerror option"
  | Panicked string
  | Blocked

text \<open>
  A \<open>CheckHandlerFunc\<close> is run once by a worker of the reducer, under the reducer's
  context; it is represented by what that run yields. The worker publishes a returned pair
  as a \<open>checkOutcome\<close> on the result channel.
\<close>

type_synonym CheckHandlerFunc = exec

text \<open>
  One entry per \<open>select\<close> of a reducer's loop, in the order the loop takes them:
  \<open>Recv j\<close> when the outcome of handler \<open>j\<close> is received from the result channel,
  \<open>CtxDone e\<close> when \<open>ctx.Done()\<close> fires and \<open>ctx.Err()\<close> is \<open>e\<close>. A schedule that
  ends before the loop does leaves the loop waiting.
\<close>

datatype event = Recv nat | CtxDone goerror

fun received :: "event list \<Rightarrow> nat list" where
  "received [] = []"
| "received (Recv j # evs) = j # received evs"
| "received (CtxDone e # evs) = received evs"

fun cancel_free :: "event list \<Rightarrow> bool" where
  "cancel_free [] = True"
| "cancel_free (Recv j # evs) = cancel_free evs"
| "cancel_free (CtxDone e # evs) = False"

text \<open>
  A run in which the context is never done and each of the \<open>n\<close> workers delivers its
  outcome exactly once, in any order.
\<close>

definition fair_run :: "nat \<Rightarrow> event list \<Rightarrow> bool" where
  "fair_run n evs =
     (cancel_free evs \<and> distinct (received evs) \<and> length (received evs) = n
      \<and> list_all (\<lambda>j. j < n) (received evs))"

definition is_allowed :: "exec \<Rightarrow> bool" where
  "is_allowed x = (case x of Returned r e \<Rightarrow> e = None \<and> GetAllowed r | _ \<Rightarrow> False)"

definition is_denied :: "exec \<Rightarrow> bool" where
  "is_denied x =
     (case x of Returned r e \<Rightarrow> e = None \<and> r \<noteq> None \<and> \<not> GetAllowed r | _ \<Rightarrow> False)"

definition is_error :: "exec \<Rightarrow> goerror \<Rightarrow> bool" where
  "is_error x e = (case x of Returned r e' \<Rightarrow> e' = Some e | _ \<Rightarrow> False)"

section \<open>The reducers\<close>

text \<open>
  \<open>resolver\<close> feeds the handlers through a semaphore of \<open>concurrencyLimit\<close> slots
  (\<open>make(chan struct{}, concurrencyLimit)\<close>). With a limit of 0 the channel is unbuffered
  and has no receiver before a worker runs, so no worker is ever started and nothing is
  received; an index outside the handlers names no worker either.

  \<open>union\<close>: the loop runs \<open>len(handlers)\<close> times; an error ends it with that error, an
  allowed response ends it with that response. The deferred function (\<open>cancel\<close>,
  \<open>drain\<close>, \<open>close\<close>) runs once the result is fixed and does not change it; what it
  waits for is the subject of the section on the goroutines of a reducer.
\<close>

fun union_loop :: "32 word \<Rightarrow> CheckHandlerFunc list \<Rightarrow> nat \<Rightarrow> event list \<Rightarrow> exec" where
  "union_loop K hs 0 evs = Returned (Some \<lparr>Allowed = False\<rparr>) None"
| "union_loop K hs (Suc n) [] = Blocked"
| "union_loop K hs (Suc n) (CtxDone e # evs) = Returned None (Some e)"
| "union_loop K hs (Suc n) (Recv j # evs) =
     (if K = 0 \<or> length hs \<le> j then Blocked
      else case hs ! j of
             Returned r e \<Rightarrow>
               if e \<noteq> None then Returned (Some \<lparr>Allowed = False\<rparr>) e
               else if GetAllowed r then Returned r None
               else union_loop K hs n evs
           | Panicked m \<Rightarrow> Panicked m
           | Blocked \<Rightarrow> Blocked)"

definition union_reducer :: "32 word \<Rightarrow> CheckHandlerFunc list \<Rightarrow> event list \<Rightarrow> exec" where
  "union_reducer K hs evs = union_loop K hs (length hs) evs"

text \<open>
  \<open>intersection\<close>: an error ends the loop with that error, a response that is not
  allowed ends it with that response.
\<close>

fun intersection_loop :: "32 word \<Rightarrow> CheckHandlerFunc list \<Rightarrow> nat \<Rightarrow> event list \<Rightarrow> exec" where
  "intersection_loop K hs 0 evs = Returned (Some \<lparr>Allowed = True\<rparr>) None"
| "intersection_loop K hs (Suc n) [] = Blocked"
| "intersection_loop K hs (Suc n) (CtxDone e # evs) = Returned None (Some e)"
| "intersection_loop K hs (Suc n) (Recv j # evs) =
     (if K = 0 \<or> length hs \<le> j then Blocked
      else case hs ! j of
             Returned r e \<Rightarrow>
               if e \<noteq> None then Returned (Some \<lparr>Allowed = False\<rparr>) e
               else if \<not> GetAllowed r then Returned r None
               else intersection_loop K hs n evs
           | Panicked m \<Rightarrow> Panicked m
           | Blocked \<Rightarrow> Blocked)"

definition intersection :: "32 word \<Rightarrow> CheckHandlerFunc list \<Rightarrow> event list \<Rightarrow> exec" where
  "intersection K hs evs = intersection_loop K hs (length hs) evs"

text \<open>Decimal rendering of \<open>%d\<close>.\<close>

fun string_of_nat :: "nat \<Rightarrow> string" where
  "string_of_nat n =
     (if n < 10 then [char_of (48 + n)]
      else string_of_nat (n div 10) @ [char_of (48 + n mod 10)])"

declare string_of_nat.simps [simp del]

definition exclusion_panic :: "nat \<Rightarrow> string" where
  "exclusion_panic n =
     ''expected two rewrite operands for exclusion operator, but got '' @ [CHR 0x27]
       @ string_of_nat n @ [CHR 0x27]"

definition nil_dereference :: string where
  "nil_dereference = ''runtime error: invalid memory address or nil pointer dereference''"

text \<open>
  \<open>exclusion\<close>: \<open>Recv 0\<close> is a receive from \<open>baseChan\<close>, \<open>Recv 1\<close> one from
  \<open>subChan\<close>. The loop reads the field \<open>resp.Allowed\<close> directly, which panics on a nil
  response. The reducer itself sends to the semaphore before it starts each worker, so
  with a limit of 0 it waits forever at the first send.
\<close>

fun exclusion_loop :: "CheckHandlerFunc \<Rightarrow> CheckHandlerFunc \<Rightarrow> nat \<Rightarrow> event list \<Rightarrow> exec" where
  "exclusion_loop b s 0 evs = Returned (Some \<lparr>Allowed = True\<rparr>) None"
| "exclusion_loop b s (Suc n) [] = Blocked"
| "exclusion_loop b s (Suc n) (CtxDone e # evs) = Returned None (Some e)"
| "exclusion_loop b s (Suc n) (Recv j # evs) =
     (if j = 0 then
        (case b of
           Returned r e \<Rightarrow>
             if e \<noteq> None then Returned (Some \<lparr>Allowed = False\<rparr>) e
             else (case r of
                     None \<Rightarrow> Panicked nil_dereference
                   | Some x \<Rightarrow>
                       if \<not> Allowed x then Returned (Some \<lparr>Allowed = False\<rparr>) None
                       else exclusion_loop b s n evs)
         | Panicked m \<Rightarrow> Panicked m
         | Blocked \<Rightarrow> Blocked)
      else if j = 1 then
        (case s of
           Returned r e \<Rightarrow>
             if e \<noteq> None then Returned (Some \<lparr>Allowed = False\<rparr>) e
             else (case r of
                     None \<Rightarrow> Panicked nil_dereference
                   | Some x \<Rightarrow>
                       if Allowed x then Returned (Some \<lparr>Allowed = False\<rparr>) None
                       else exclusion_loop b s n evs)
         | Panicked m \<Rightarrow> Panicked m
         | Blocked \<Rightarrow> Blocked)
      else Blocked)"

definition exclusion :: "32 word \<Rightarrow> CheckHandlerFunc list \<Rightarrow> event list \<Rightarrow> exec" where
  "exclusion K hs evs =
     (if length hs \<noteq> 2 then Panicked (exclusion_panic (length hs))
      else if K = 0 then Blocked
      else exclusion_loop (hs ! 0) (hs ! 1) (length hs) evs)"

text \<open>
  What each loop does with an outcome it receives: a \<open>union\<close> loop goes on after a
  response that is not allowed, an \<open>intersection\<close> loop after an allowed one, an
  \<open>exclusion\<close> loop after an allowed base (index 0) or a denied subtract (index 1).
\<close>

definition union_pass :: "exec \<Rightarrow> bool" where
  "union_pass h = (case h of Returned r e \<Rightarrow> e = None \<and> \<not> GetAllowed r | _ \<Rightarrow> False)"

definition returns_ok :: "exec \<Rightarrow> bool" where
  "returns_ok h = (case h of Returned r e \<Rightarrow> e = None | _ \<Rightarrow> False)"

definition exclusion_pass :: "nat \<Rightarrow> exec \<Rightarrow> exec \<Rightarrow> bool" where
  "exclusion_pass i b s = (if i = 0 then is_allowed b else is_denied s)"

section \<open>Requests, tuples and the type system\<close>

record TupleKey =
  tk_Object :: string
  tk_Relation :: string
  tk_User :: string

text \<open>
  \<open>dispatcher.DispatchCheckRequest\<close>; \<open>Depth\<close> is the field of its
  \<open>ResolutionMetadata\<close>, a \<open>uint32\<close>.
\<close>

record DispatchCheckRequest =
  StoreId :: string
  AuthorizationModelId :: string
  TupleKey :: TupleKey
  Depth :: "32 word"

datatype Userset =
    Userset_This
  | Userset_ComputedUserset string
  | Userset_TupleToUserset string string
  | Userset_Union "Userset list"
  | Userset_Intersection "Userset list"
  | Userset_Difference Userset Userset
  | Userset_unset

datatype RelationOrWildcard = RefRelation string | RefWildcard

record RelationReference =
  ref_Type :: string
  ref_RelationOrWildcard :: "RelationOrWildcard option"

record Relation =
  Rewrite :: Userset
  DirectlyRelatedUserTypes :: "RelationReference list"

text \<open>
  Modelled from the spec: package \<open>typesystem\<close> is not among the sources. A model maps
  an object type to its relations by name, and \<open>GetRelation(objectType, relationName)\<close>
  answers the relation or \<open>ErrRelationUndefined\<close> (spec 3 and 4.1).
\<close>

type_synonym TypeSystem = "(string \<times> (string \<times> Relation) list) list"

definition ErrRelationUndefined :: goerror where
  "ErrRelationUndefined = Err ''relation is undefined''"

definition GetRelation :: "TypeSystem \<Rightarrow> string \<Rightarrow> string \<Rightarrow> goerror + Relation" where
  "GetRelation typesys objectType relation =
     (case map_of typesys objectType of
        None \<Rightarrow> Inl ErrRelationUndefined
      | Some relations \<Rightarrow>
          (case map_of relations relation of
             None \<Rightarrow> Inl ErrRelationUndefined
           | Some rel \<Rightarrow> Inr rel))"

text \<open>
  Modelled from the spec: package \<open>tuple\<close> is not among the sources. An object is
  serialised as \<open>type:id\<close> and a userset as \<open>type:id#relation\<close> (spec 3); a string
  without the separator has an empty type, respectively an empty relation.
\<close>

definition split_at :: "char \<Rightarrow> string \<Rightarrow> (string \<times> string) option" where
  "split_at c s =
     (if c \<in> set s then Some (takeWhile (\<lambda>x. x \<noteq> c) s, tl (dropWhile (\<lambda>x. x \<noteq> c) s))
      else None)"

definition SplitObject :: "string \<Rightarrow> string \<times> string" where
  "SplitObject object =
     (case split_at (CHR '':'') object of None \<Rightarrow> ('''', object) | Some (t, i) \<Rightarrow> (t, i))"

definition SplitObjectRelation :: "string \<Rightarrow> string \<times> string" where
  "SplitObjectRelation objectRelation =
     (case split_at (CHR ''#'') objectRelation of
        None \<Rightarrow> (objectRelation, '''')
      | Some (object, relation) \<Rightarrow> (object, relation))"

definition NewTupleKey :: "string \<Rightarrow> string \<Rightarrow> string \<Rightarrow> TupleKey" where
  "NewTupleKey object relation user =
     \<lparr>tk_Object = object, tk_Relation = relation, tk_User = user\<rparr>"

section \<open>The datastore\<close>

text \<open>
  An iterator yields its items one by one; \<open>Next\<close> answers \<open>ErrIteratorDone\<close> at the
  end. \<open>Stop\<close> releases it.
\<close>

record TupleIterator =
  items :: "(goerror + TupleKey) list"
  stopped :: bool

definition Stop :: "TupleIterator \<Rightarrow> TupleIterator" where
  "Stop iter = iter\<lparr>stopped := True\<rparr>"

text \<open>
  \<open>storage.OpenFGADatastore\<close> is an interface; the evaluator uses three of its reads.
  \<open>ReadUserTuple\<close> answers the pair \<open>(tuple, err)\<close>.
\<close>

record datastore =
  ReadUserTuple :: "string \<Rightarrow> TupleKey \<Rightarrow> TupleKey option \<times> goerror option"
  ReadUsersetTuples :: "string \<Rightarrow> TupleKey \<Rightarrow> goerror + TupleIterator"
  Read :: "string \<Rightarrow> TupleKey \<Rightarrow> goerror + TupleIterator"

record ConcurrentChecker =
  ds :: datastore
  concurrencyLimit :: "32 word"

record Context =
  ctx_typesys :: "TypeSystem option"

text \<open>
  The loop \<open>for { t, err := iter.Next(ctx); ... }\<close> of \<open>checkDirect\<close> and
  \<open>checkTTU\<close>: it ends at \<open>ErrIteratorDone\<close> with the tuples read so far, or at any
  other error with that error; the second component is what is left in the iterator.
\<close>

fun next_loop ::
  "(goerror + TupleKey) list \<Rightarrow> TupleKey list
     \<Rightarrow> (goerror + TupleKey list) \<times> (goerror + TupleKey) list" where
  "next_loop [] acc = (Inr acc, [])"
| "next_loop (Inl e # rest) acc =
     (if e = ErrIteratorDone then (Inr acc, rest) else (Inl e, rest))"
| "next_loop (Inr t # rest) acc = next_loop rest (acc @ [t])"

section \<open>The Check evaluator\<close>

text \<open>
  \<open>fn1\<close> of \<open>checkDirect\<close>: the exact-key lookup.
\<close>

definition checkDirect_fn1 :: "ConcurrentChecker \<Rightarrow> DispatchCheckRequest \<Rightarrow> exec" where
  "checkDirect_fn1 c req =
     (case ReadUserTuple (ds c) (StoreId req) (TupleKey req) of
        (t, Some e) \<Rightarrow>
          if e = ErrNotFound then Returned (Some \<lparr>Allowed = False\<rparr>) None
          else Returned (Some \<lparr>Allowed = False\<rparr>) (Some e)
      | (Some t, None) \<Rightarrow> Returned (Some \<lparr>Allowed = True\<rparr>) None
      | (None, None) \<Rightarrow> Returned (Some \<lparr>Allowed = False\<rparr>) None)"

text \<open>
  What \<open>dispatch\<close> and \<open>DispatchCheck\<close> do with the pair they get: an error is handed
  on with a nil response, otherwise the field \<open>resp.Allowed\<close> is copied.
\<close>

definition copy_response :: "exec \<Rightarrow> exec" where
  "copy_response x =
     (case x of
        Returned resp err \<Rightarrow>
          if err \<noteq> None then Returned None err
          else (case resp of
                  None \<Rightarrow> Panicked nil_dereference
                | Some r \<Rightarrow> Returned (Some \<lparr>Allowed = Allowed r\<rparr>) None)
      | Panicked m \<Rightarrow> Panicked m
      | Blocked \<Rightarrow> Blocked)"

definition relation_undefined :: "string \<Rightarrow> string \<Rightarrow> string" where
  "relation_undefined relation objectType =
     ''relation '' @ [CHR 0x27] @ relation @ [CHR 0x27] @ '' undefined for object type ''
       @ [CHR 0x27] @ objectType @ [CHR 0x27]"

datatype setOperationType = unionSetOperation | intersectionSetOperation | exclusionSetOperation

definition set_operation_panic :: "nat \<Rightarrow> string" where
  "set_operation_panic n =
     ''expected two rewrite operands in exclusion operator, but got '' @ [CHR 0x27]
       @ string_of_nat n @ [CHR 0x27]"

text \<open>
  The handlers are built eagerly, so a panic of \<open>checkRewrite\<close> on a child is a panic of
  the call that builds them (\<open>Inl\<close>); the first child that panics decides.
\<close>

fun built :: "('e + 'a) list \<Rightarrow> 'e + 'a list" where
  "built [] = Inr []"
| "built (Inl m # xs) = Inl m"
| "built (Inr h # xs) = (case built xs of Inl m \<Rightarrow> Inl m | Inr hs \<Rightarrow> Inr (h # hs))"

text \<open>
  \<open>checkSetOperation\<close>; \<open>children\<close> holds, for each child rewrite in order, what
  \<open>c.checkRewrite(ctx, req, child)\<close> yields. For an exclusion the number of children is
  checked before any handler is built.
\<close>

definition checkSetOperation ::
  "ConcurrentChecker \<Rightarrow> event list \<Rightarrow> setOperationType
     \<Rightarrow> (32 word \<Rightarrow> CheckHandlerFunc list \<Rightarrow> event list \<Rightarrow> exec)
     \<Rightarrow> (string + CheckHandlerFunc) list \<Rightarrow> string + CheckHandlerFunc" where
  "checkSetOperation c sched setOpType reducer children =
     (case (case setOpType of
              exclusionSetOperation \<Rightarrow>
                if length children \<noteq> 2 then Inl (set_operation_panic (length children))
                else built [children ! 0, children ! 1]
            | _ \<Rightarrow> built children) of
        Inl m \<Rightarrow> Inl m
      | Inr handlers \<Rightarrow> Inr (reducer (concurrencyLimit c) handlers sched))"

text \<open>
  The depth left below a request: a dispatch from depth 0 would wrap around to
  \<open>2^32 - 1\<close>, so depth 0 counts as \<open>2^32\<close> there.
\<close>

definition lvl :: "32 word \<Rightarrow> nat" where
  "lvl d = (if d = 0 then 2 ^ 32 else unat d)"

text \<open>
  The recursion of the evaluator. Every call of a reducer has a position in the tree of
  calls (a path, innermost index first), and \<open>orc\<close> gives the schedule of the reducer at
  each position; handler \<open>i\<close> of the reducer at \<open>p\<close> is at \<open>i # p\<close>.
  The second component of \<open>checkDirect_fn2\<close> and of the handler of \<open>checkTTU\<close> is
  the iterator the handler obtained, as it leaves it.
\<close>

function (sequential)
  DispatchCheck ::
    "ConcurrentChecker \<Rightarrow> (nat list \<Rightarrow> event list) \<Rightarrow> nat list \<Rightarrow> Context
       \<Rightarrow> DispatchCheckRequest \<Rightarrow> exec"
  and dispatch ::
    "ConcurrentChecker \<Rightarrow> (nat list \<Rightarrow> event list) \<Rightarrow> nat list \<Rightarrow> Context
       \<Rightarrow> DispatchCheckRequest \<Rightarrow> CheckHandlerFunc"
  and checkRewrite ::
    "ConcurrentChecker \<Rightarrow> (nat list \<Rightarrow> event list) \<Rightarrow> nat list \<Rightarrow> Context
       \<Rightarrow> DispatchCheckRequest \<Rightarrow> Userset \<Rightarrow> string + CheckHandlerFunc"
  and checkDirect ::
    "ConcurrentChecker \<Rightarrow> (nat list \<Rightarrow> event list) \<Rightarrow> nat list \<Rightarrow> Context
       \<Rightarrow> DispatchCheckRequest \<Rightarrow> CheckHandlerFunc"
  and checkDirect_fn2 ::
    "ConcurrentChecker \<Rightarrow> (nat list \<Rightarrow> event list) \<Rightarrow> nat list \<Rightarrow> Context
       \<Rightarrow> DispatchCheckRequest \<Rightarrow> CheckHandlerFunc \<times> TupleIterator option"
  and checkTTU ::
    "ConcurrentChecker \<Rightarrow> (nat list \<Rightarrow> event list) \<Rightarrow> nat list \<Rightarrow> Context
       \<Rightarrow> DispatchCheckRequest \<Rightarrow> string \<Rightarrow> string
       \<Rightarrow> string + (CheckHandlerFunc \<times> TupleIterator option)"
where
  "DispatchCheck c orc p ctx req =
     (if Depth req = 0 then Returned None (Some (Err ''resolution depth exceeded''))
      else case ctx_typesys ctx of
        None \<Rightarrow> Panicked ''typesystem missing in context''
      | Some typesys \<Rightarrow>
          (let object = tk_Object (TupleKey req);
               relation = tk_Relation (TupleKey req);
               objectType = fst (SplitObject object)
           in case GetRelation typesys objectType relation of
                Inl e \<Rightarrow> Returned None (Some (Err (relation_undefined relation objectType)))
              | Inr rel \<Rightarrow>
                  (case checkRewrite c orc (0 # p) ctx req (Rewrite rel) of
                     Inl m \<Rightarrow> Panicked m
                   | Inr h \<Rightarrow> copy_response (union_reducer (concurrencyLimit c) [h] (orc p)))))"
| "dispatch c orc p ctx req = copy_response (DispatchCheck c orc p ctx req)"
| "checkRewrite c orc p ctx req rewrite =
     (case rewrite of
        Userset_This \<Rightarrow> Inr (checkDirect c orc p ctx req)
      | Userset_ComputedUserset computed \<Rightarrow>
          Inr (dispatch c orc p ctx
                 \<lparr>StoreId = StoreId req,
                  AuthorizationModelId = AuthorizationModelId req,
                  TupleKey = NewTupleKey (tk_Object (TupleKey req)) computed (tk_User (TupleKey req)),
                  Depth = Depth req - 1\<rparr>)
      | Userset_TupleToUserset tuplesetRelation computedRelation \<Rightarrow>
          map_sum id fst (checkTTU c orc p ctx req tuplesetRelation computedRelation)
      | Userset_Union children \<Rightarrow>
          checkSetOperation c (orc p) unionSetOperation union_reducer
            (map (\<lambda>i. checkRewrite c orc (i # p) ctx req (children ! i)) [0..<length children])
      | Userset_Intersection children \<Rightarrow>
          checkSetOperation c (orc p) intersectionSetOperation intersection
            (map (\<lambda>i. checkRewrite c orc (i # p) ctx req (children ! i)) [0..<length children])
      | Userset_Difference base subtract \<Rightarrow>
          checkSetOperation c (orc p) exclusionSetOperation exclusion
            [checkRewrite c orc (0 # p) ctx req base, checkRewrite c orc (1 # p) ctx req subtract]
      | Userset_unset \<Rightarrow> Inl ''unexpected userset rewrite encountere'')"
| "checkDirect c orc p ctx req =
     union_reducer (concurrencyLimit c)
       [checkDirect_fn1 c req, fst (checkDirect_fn2 c orc (1 # p) ctx req)] (orc p)"
| "checkDirect_fn2 c orc p ctx req =
     (case ReadUsersetTuples (ds c) (StoreId req) (TupleKey req) of
        Inl e \<Rightarrow> (Returned (Some \<lparr>Allowed = False\<rparr>) (Some e), None)
      | Inr iter \<Rightarrow>
          (case next_loop (items iter) [] of
             (Inl e, rest) \<Rightarrow>
               (Returned (Some \<lparr>Allowed = False\<rparr>) (Some e), Some (iter\<lparr>items := rest\<rparr>))
           | (Inr ts, rest) \<Rightarrow>
               (let handlers =
                      map (\<lambda>i. dispatch c orc (i # p) ctx
                                 \<lparr>StoreId = StoreId req,
                                  AuthorizationModelId = AuthorizationModelId req,
                                  TupleKey =
                                    NewTupleKey (fst (SplitObjectRelation (tk_User (ts ! i))))
                                      (snd (SplitObjectRelation (tk_User (ts ! i))))
                                      (tk_User (TupleKey req)),
                                  Depth = Depth req - 1\<rparr>)
                        [0..<length ts]
                in (if length handlers > 0
                    then union_reducer (concurrencyLimit c) handlers (orc p)
                    else Returned (Some \<lparr>Allowed = False\<rparr>) None,
                    Some (iter\<lparr>items := rest\<rparr>)))))"
| "checkTTU c orc p parentctx req tuplesetRelation computedRelation =
     (case ctx_typesys parentctx of
        None \<Rightarrow> Inl ''typesystem missing in context''
      | Some typesys \<Rightarrow>
          Inr (case Read (ds c) (StoreId req)
                      (NewTupleKey (tk_Object (TupleKey req)) tuplesetRelation '''') of
                 Inl e \<Rightarrow> (Returned (Some \<lparr>Allowed = False\<rparr>) (Some e), None)
               | Inr iter \<Rightarrow>
                   (case next_loop (items iter) [] of
                      (Inl e, rest) \<Rightarrow>
                        (Returned (Some \<lparr>Allowed = False\<rparr>) (Some e),
                         Some (Stop (iter\<lparr>items := rest\<rparr>)))
                    | (Inr ts, rest) \<Rightarrow>
                        (let handlers =
                               map (\<lambda>i. dispatch c orc (i # p) (parentctx\<lparr>ctx_typesys := Some typesys\<rparr>)
                                          \<lparr>StoreId = StoreId req,
                                           AuthorizationModelId = AuthorizationModelId req,
                                           TupleKey =
                                             \<lparr>tk_Object = fst (SplitObjectRelation (tk_User (ts ! i))),
                                              tk_Relation = computedRelation,
                                              tk_User = tk_User (TupleKey req)\<rparr>,
                                           Depth = Depth req - 1\<rparr>)
                                 [0..<length ts]
                         in (if length handlers > 0
                             then union_reducer (concurrencyLimit c) handlers (orc p)
                             else Returned (Some \<lparr>Allowed = False\<rparr>) None,
                             Some (Stop (iter\<lparr>items := rest\<rparr>)))))))"
  by pat_completeness auto

termination
proof -
  have lvl_pred: "2 * unat (d - 1) + 1 < 2 * lvl d" for d :: "32 word"
  proof (cases "d = 0")
    case True
    have "unat (- 1 :: 32 word) = 2 ^ 32 - 1"
      by (simp add: unsigned_minus_1_eq_mask mask_eq_exp_minus_1)
    with True show ?thesis by (simp add: lvl_def)
  next
    case False
    then have "unat (d - 1) = unat d - 1" by (simp add: unat_minus_one)
    moreover from False have "unat d \<noteq> 0" by (simp add: unat_eq_0)
    ultimately show ?thesis using False by (simp add: lvl_def)
  qed
  have size_nth_child: "i < length cs \<Longrightarrow> size (cs ! i) < Suc (size_list size cs)"
    for i and cs :: "Userset list"
    by (metis less_Suc_eq_le nth_mem size_list_estimation' order_refl)
  show ?thesis
  proof (relation "inv_image (less_than <*lex*> less_than)
    (\<lambda>x. case x of
       Inl (Inl (c, orc, p, ctx, req)) \<Rightarrow> (2 * unat (Depth req) + 1, 0)
     | Inl (Inr (Inl (c, orc, p, ctx, req))) \<Rightarrow> (2 * unat (Depth req) + 1, 1)
     | Inl (Inr (Inr (c, orc, p, ctx, req, rw))) \<Rightarrow> (2 * lvl (Depth req), size rw + 3)
     | Inr (Inl (c, orc, p, ctx, req)) \<Rightarrow> (2 * lvl (Depth req), 2)
     | Inr (Inr (Inl (c, orc, p, ctx, req))) \<Rightarrow> (2 * lvl (Depth req), 1)
     | Inr (Inr (Inr (c, orc, p, ctx, req, tr, cr))) \<Rightarrow> (2 * lvl (Depth req), 1))",
    goal_cases)
  case 1
  show ?case by (intro wf_inv_image wf_lex_prod wf_less_than)
next
  case (2 c orc p ctx req)
  then show ?case by (simp add: lvl_def)
next
  case 3
  show ?case by simp
next
  case 4
  show ?case by simp
next
  case 5
  show ?case using lvl_pred by simp
next
  case 6
  show ?case by simp
next
  case (7 c orc p ctx req rewrite cs i)
  then show ?case using size_nth_child [of i cs] by simp
next
  case (8 c orc p ctx req rewrite cs i)
  then show ?case using size_nth_child [of i cs] by simp
next
  case 9
  then show ?case by simp
next
  case 10
  then show ?case by simp
next
  case 11
  show ?case by simp
next
  case 12
  show ?case using lvl_pred by simp
next
  case 13
  show ?case using lvl_pred by simp
  qed
qed

declare DispatchCheck.simps [simp del] dispatch.simps [simp del] checkRewrite.simps [simp del]
  checkDirect.simps [simp del] checkDirect_fn2.simps [simp del] checkTTU.simps [simp del]

text \<open>
  An in-memory datastore over a list of tuples, for evaluating the model on concrete
  inputs. Modelled from the spec (4.2): \<open>ReadUserTuple\<close> is the exact-key lookup,
  \<open>ReadUsersetTuples\<close> yields the tuples of the object and relation whose user is a
  userset, \<open>Read\<close> all tuples of the object and relation.
\<close>

definition tuples_datastore :: "TupleKey list \<Rightarrow> datastore" where
  "tuples_datastore ts =
     \<lparr>ReadUserTuple = (\<lambda>store tk.
         case find (\<lambda>t. t = tk) ts of
           None \<Rightarrow> (None, Some ErrNotFound)
         | Some t \<Rightarrow> (Some t, None)),
      ReadUsersetTuples = (\<lambda>store tk.
         Inr \<lparr>items = map Inr (filter (\<lambda>t. tk_Object t = tk_Object tk
                       \<and> tk_Relation t = tk_Relation tk \<and> CHR ''#'' \<in> set (tk_User t)) ts),
              stopped = False\<rparr>),
      Read = (\<lambda>store tk.
         Inr \<lparr>items = map Inr (filter (\<lambda>t. tk_Object t = tk_Object tk
                       \<and> tk_Relation t = tk_Relation tk) ts),
              stopped = False\<rparr>)\<rparr>"

text \<open>The schedule that delivers the outcomes of up to \<open>n\<close> handlers in their order.\<close>

definition in_order :: "nat \<Rightarrow> nat list \<Rightarrow> event list" where
  "in_order n p = map Recv [0..<n]"

definition depth_exceeded :: exec where
  "depth_exceeded = Returned None (Some (Err ''resolution depth exceeded''))"

text \<open>
  A model and tuples in the style of the scenarios of the spec (section 8), with a relation
  \<open>loop\<close> that is a \<open>ComputedUserset\<close> of itself.
\<close>

definition user_ref :: "string \<Rightarrow> RelationReference" where
  "user_ref t = \<lparr>ref_Type = t, ref_RelationOrWildcard = None\<rparr>"

definition example_model :: TypeSystem where
  "example_model =
     [(''document'',
        [(''viewer'', \<lparr>Rewrite = Userset_This,
                        DirectlyRelatedUserTypes =
                          [user_ref ''user'',
                           \<lparr>ref_Type = ''group'', ref_RelationOrWildcard = Some (RefRelation ''member'')\<rparr>]\<rparr>),
         (''parent'', \<lparr>Rewrite = Userset_This, DirectlyRelatedUserTypes = [user_ref ''folder'']\<rparr>),
         (''can_read'', \<lparr>Rewrite = Userset_ComputedUserset ''viewer'', DirectlyRelatedUserTypes = []\<rparr>),
         (''inherited'', \<lparr>Rewrite = Userset_TupleToUserset ''parent'' ''viewer'',
                           DirectlyRelatedUserTypes = []\<rparr>),
         (''loop'', \<lparr>Rewrite = Userset_ComputedUserset ''loop'', DirectlyRelatedUserTypes = []\<rparr>)]),
      (''folder'',
        [(''viewer'', \<lparr>Rewrite = Userset_This, DirectlyRelatedUserTypes = [user_ref ''user'']\<rparr>)]),
      (''group'',
        [(''member'', \<lparr>Rewrite = Userset_This, DirectlyRelatedUserTypes = [user_ref ''user'']\<rparr>)])]"

definition example_tuples :: "TupleKey list" where
  "example_tuples =
     [NewTupleKey ''document:1'' ''viewer'' ''user:jon'',
      NewTupleKey ''document:1'' ''viewer'' ''group:eng#member'',
      NewTupleKey ''document:1'' ''parent'' ''folder:x'',
      NewTupleKey ''folder:x'' ''viewer'' ''user:maria'',
      NewTupleKey ''group:eng'' ''member'' ''user:andres'']"

definition example_checker :: ConcurrentChecker where
  "example_checker = \<lparr>ds = tuples_datastore example_tuples, concurrencyLimit = 10\<rparr>"

definition example_ctx :: Context where
  "example_ctx = \<lparr>ctx_typesys = Some example_model\<rparr>"

definition check_request :: "string \<Rightarrow> string \<Rightarrow> string \<Rightarrow> 32 word \<Rightarrow> DispatchCheckRequest" where
  "check_request object relation user depth =
     \<lparr>StoreId = ''store'', AuthorizationModelId = ''model'',
      TupleKey = NewTupleKey object relation user, Depth = depth\<rparr>"

text \<open>
  Neither the call that builds a handler nor the handler itself panics with message \<open>m\<close>.
\<close>

definition free_of :: "string \<Rightarrow> string + exec \<Rightarrow> bool" where
  "free_of m r = (r \<noteq> Inl m \<and> r \<noteq> Inr (Panicked m))"

section \<open>ListUsers (pkg/server/commands/listusers/list_users_rpc.go)\<close>

record Object =
  obj_Type :: string
  obj_Id :: string

record ListUsersRequest =
  lu_StoreId :: string
  lu_AuthorizationModelId :: string
  lu_Object :: Object
  lu_Relation :: string
  lu_TargetUserObjectType :: string
  lu_TargetUserRelation :: string
  lu_ContextualTuples :: "TupleKey list"

text \<open>
  Modelled from the spec: \<open>tuple.ObjectKey\<close> is not among the sources; an object is
  serialised as \<open>type:id\<close> (spec 3).
\<close>

definition ObjectKey :: "Object \<Rightarrow> string" where
  "ObjectKey obj = obj_Type obj @ '':'' @ obj_Id obj"

text \<open>
  Modelled from the spec: \<open>validation.FilterInvalidTuples\<close> is not among the sources. A
  tuple is valid when the shape of its user matches one of the directly-related user types
  of its relation under the model (spec 3): a type alone admits the objects of that type, a
  type with a relation the usersets of that type and relation, a type with the wildcard
  the user \<open>type:*\<close>.
\<close>

definition user_matches :: "RelationReference \<Rightarrow> string \<Rightarrow> bool" where
  "user_matches ref user =
     (let (userObject, userRelation) = SplitObjectRelation user;
          (userType, userId) = SplitObject userObject
      in ref_Type ref = userType \<and>
         (case ref_RelationOrWildcard ref of
            None \<Rightarrow> userRelation = [] \<and> userId \<noteq> ''*''
          | Some (RefRelation r) \<Rightarrow> userRelation = r
          | Some RefWildcard \<Rightarrow> userRelation = [] \<and> userId = ''*''))"

definition FilterInvalidTuples :: "TypeSystem \<Rightarrow> TupleKey \<Rightarrow> bool" where
  "FilterInvalidTuples typesys t =
     (case GetRelation typesys (fst (SplitObject (tk_Object t))) (tk_Relation t) of
        Inl e \<Rightarrow> False
      | Inr rel \<Rightarrow> list_ex (\<lambda>ref. user_matches ref (tk_User t)) (DirectlyRelatedUserTypes rel))"

text \<open>
  \<open>typesystemResolver\<close> is a field of the query; by default it takes the type system
  from the context.
\<close>

record listUsersQuery =
  lu_ds :: datastore
  typesystemResolver :: "Context \<Rightarrow> string \<Rightarrow> string \<Rightarrow> goerror + TypeSystem"
  resolveNodeBreadthLimit :: "32 word"

definition NewListUsersQuery :: "datastore \<Rightarrow> listUsersQuery" where
  "NewListUsersQuery d =
     \<lparr>lu_ds = d,
      typesystemResolver = (\<lambda>ctx storeID modelID.
         case ctx_typesys ctx of
           None \<Rightarrow> Inl (Err ''typesystem not provided in context'')
         | Some typesys \<Rightarrow> Inr typesys),
      resolveNodeBreadthLimit = 20\<rparr>"

text \<open>
  What an expansion yields: the objects sent on \<open>foundObjectsChan\<close>, and how the call
  ended, with a panic (\<open>Inl\<close>) or with the error it returns.
\<close>

type_synonym expansion = "Object list \<times> (string + goerror option)"

text \<open>
  The pool runs the expansions of the usersets of one node. The model runs them one after
  the other in the order of the tuples; \<open>pool.Wait()\<close> returns the first error, or
  panics when a task has panicked. An error of the iterator is returned at once.
\<close>

fun first_error :: "(string + goerror option) \<Rightarrow> (string + goerror option) \<Rightarrow> string + goerror option" where
  "first_error (Inl m) y = Inl m"
| "first_error (Inr e) (Inl m) = Inl m"
| "first_error (Inr (Some e)) (Inr y) = Inr (Some e)"
| "first_error (Inr None) (Inr y) = Inr y"

fun pool_loop ::
  "(TupleKey \<Rightarrow> bool) \<Rightarrow> (TupleKey \<Rightarrow> expansion option) \<Rightarrow> (goerror + TupleKey) list
     \<Rightarrow> (string + goerror option) \<Rightarrow> expansion option" where
  "pool_loop keep task [] waited = Some ([], waited)"
| "pool_loop keep task (Inl e # rest) waited =
     (if e = ErrIteratorDone then Some ([], waited) else Some ([], Inr (Some e)))"
| "pool_loop keep task (Inr t # rest) waited =
     (if \<not> keep t then pool_loop keep task rest waited
      else case task t of
             None \<Rightarrow> None
           | Some (found, ended) \<Rightarrow>
               (case pool_loop keep task rest (first_error waited ended) of
                  None \<Rightarrow> None
                | Some (found', ended') \<Rightarrow> Some (found @ found', ended')))"

text \<open>
  \<open>expand\<close> has no depth counter, so the recursion is given fuel; \<open>None\<close> means that
  the fuel ran out.
\<close>

fun expand :: "nat \<Rightarrow> listUsersQuery \<Rightarrow> Context \<Rightarrow> ListUsersRequest \<Rightarrow> expansion option"
  and expandDirect :: "nat \<Rightarrow> listUsersQuery \<Rightarrow> Context \<Rightarrow> ListUsersRequest \<Rightarrow> expansion option"
  and expandTTU ::
    "nat \<Rightarrow> listUsersQuery \<Rightarrow> Context \<Rightarrow> ListUsersRequest \<Rightarrow> string \<Rightarrow> string \<Rightarrow> expansion option"
where
  "expand 0 l ctx req = None"
| "expand (Suc n) l ctx req =
     (let found =
            (if obj_Type (lu_Object req) = lu_TargetUserObjectType req
                \<and> lu_Relation req = lu_TargetUserRelation req
             then [lu_Object req] else [])
      in case typesystemResolver l ctx (lu_StoreId req) (lu_AuthorizationModelId req) of
           Inl e \<Rightarrow> Some (found, Inr (Some e))
         | Inr typesys \<Rightarrow>
             (case GetRelation typesys (obj_Type (lu_Object req)) (lu_Relation req) of
                Inl e \<Rightarrow> Some (found, Inr (Some e))
              | Inr relation \<Rightarrow>
                  (case (case Rewrite relation of
                           Userset_This \<Rightarrow> expandDirect n l ctx req
                         | Userset_ComputedUserset computed \<Rightarrow>
                             expand n l ctx
                               \<lparr>lu_StoreId = lu_StoreId req,
                                lu_AuthorizationModelId = lu_AuthorizationModelId req,
                                lu_Object = lu_Object req,
                                lu_Relation = computed,
                                lu_TargetUserObjectType = lu_TargetUserObjectType req,
                                lu_TargetUserRelation = [],
                                lu_ContextualTuples = lu_ContextualTuples req\<rparr>
                         | Userset_TupleToUserset tuplesetRelation computedRelation \<Rightarrow>
                             expandTTU n l ctx req tuplesetRelation computedRelation
                         | _ \<Rightarrow> Some ([], Inl ''unexpected userset rewrite encountered'')) of
                     None \<Rightarrow> None
                   | Some (found', ended) \<Rightarrow> Some (found @ found', ended))))"
| "expandDirect n l ctx req =
     (case typesystemResolver l ctx (lu_StoreId req) (lu_AuthorizationModelId req) of
        Inl e \<Rightarrow> Some ([], Inr (Some e))
      | Inr typesys \<Rightarrow>
          (case Read (lu_ds l) (lu_StoreId req)
                  \<lparr>tk_Object = ObjectKey (lu_Object req), tk_Relation = lu_Relation req,
                   tk_User = []\<rparr> of
             Inl e \<Rightarrow> Some ([], Inr (Some e))
           | Inr iter \<Rightarrow>
               pool_loop (FilterInvalidTuples typesys)
                 (\<lambda>tupleKey.
                    let (userObject, userRelation) = SplitObjectRelation (tk_User tupleKey);
                        (userObjectType, userObjectID) = SplitObject userObject
                    in if userRelation = [] then
                         Some (if userObjectType = lu_TargetUserObjectType req
                               then [\<lparr>obj_Type = userObjectType, obj_Id = userObjectID\<rparr>]
                               else [], Inr None)
                       else
                         expand n l ctx
                           \<lparr>lu_StoreId = lu_StoreId req,
                            lu_AuthorizationModelId = lu_AuthorizationModelId req,
                            lu_Object = \<lparr>obj_Type = userObjectType, obj_Id = userObjectID\<rparr>,
                            lu_Relation = userRelation,
                            lu_TargetUserObjectType = lu_TargetUserObjectType req,
                            lu_TargetUserRelation = lu_TargetUserRelation req,
                            lu_ContextualTuples = lu_ContextualTuples req\<rparr>)
                 (items iter) (Inr None)))"
| "expandTTU n l ctx req tuplesetRelation computedRelation =
     (case typesystemResolver l ctx (lu_StoreId req) (lu_AuthorizationModelId req) of
        Inl e \<Rightarrow> Some ([], Inr (Some e))
      | Inr typesys \<Rightarrow>
          (case Read (lu_ds l) (lu_StoreId req)
                  \<lparr>tk_Object = ObjectKey (lu_Object req), tk_Relation = tuplesetRelation,
                   tk_User = []\<rparr> of
             Inl e \<Rightarrow> Some ([], Inr (Some e))
           | Inr iter \<Rightarrow>
               pool_loop (FilterInvalidTuples typesys)
                 (\<lambda>tupleKey.
                    let (userObjectType, userObjectID) = SplitObject (tk_User tupleKey)
                    in expand n l ctx
                         \<lparr>lu_StoreId = lu_StoreId req,
                          lu_AuthorizationModelId = lu_AuthorizationModelId req,
                          lu_Object = \<lparr>obj_Type = userObjectType, obj_Id = userObjectID\<rparr>,
                          lu_Relation = computedRelation,
                          lu_TargetUserObjectType = lu_TargetUserObjectType req,
                          lu_TargetUserRelation = lu_TargetUserRelation req,
                          lu_ContextualTuples = lu_ContextualTuples req\<rparr>)
                 (items iter) (Inr None)))"

definition list_users_request :: "string \<Rightarrow> string \<Rightarrow> string \<Rightarrow> string \<Rightarrow> string \<Rightarrow> ListUsersRequest" where
  "list_users_request objectType objectId relation targetType targetRelation =
     \<lparr>lu_StoreId = ''store'', lu_AuthorizationModelId = ''model'',
      lu_Object = \<lparr>obj_Type = objectType, obj_Id = objectId\<rparr>, lu_Relation = relation,
      lu_TargetUserObjectType = targetType, lu_TargetUserRelation = targetRelation,
      lu_ContextualTuples = []\<rparr>"

section \<open>The materializer\<close>

text \<open>
  \<open>materializeInternalWithRewrite\<close> and the functions it calls are the same in the
  package \<open>materializer\<close> and in the \<open>generate index\<close> command.
\<close>

record namedSQLStatement =
  stmt_name :: string
  stmt_sql :: string

text \<open>A panic carries a message or an error value.\<close>

datatype panic = Panic string | PanicErr goerror

definition q :: string where
  "q = [CHR 0x27]"

definition nl :: string where
  "nl = [CHR 0x0A]"

definition tab :: string where
  "tab = [CHR 0x09]"

text \<open>\<open>strings.Join(elems, sep)\<close>.\<close>

fun Join :: "string list \<Rightarrow> string \<Rightarrow> string" where
  "Join [] sep = []"
| "Join [x] sep = x"
| "Join (x # y # xs) sep = x @ sep @ Join (y # xs) sep"

text \<open>
  Modelled from the spec: package \<open>typesystem\<close> is not among the sources;
  \<open>GetDirectlyRelatedUserTypes(objectType, relationName)\<close> enumerates the directly-related
  user types of a relation (spec 4.1).
\<close>

definition GetDirectlyRelatedUserTypes ::
  "TypeSystem \<Rightarrow> string \<Rightarrow> string \<Rightarrow> goerror + RelationReference list" where
  "GetDirectlyRelatedUserTypes typesys objectType relation =
     (case GetRelation typesys objectType relation of
        Inl e \<Rightarrow> Inl e
      | Inr rel \<Rightarrow> Inr (DirectlyRelatedUserTypes rel))"

definition statement_name :: "string \<Rightarrow> string \<Rightarrow> string" where
  "statement_name objectType relation = objectType @ ''_'' @ relation"

definition nested_direct_sql :: "string \<Rightarrow> string \<Rightarrow> string \<Rightarrow> string \<Rightarrow> string" where
  "nested_direct_sql objectType relation subjectType subjectRelation =
     (let referencedTableName = statement_name subjectType subjectRelation in
       ''SELECT r.subject_type, r.subject_id, r.subject_relation, '' @ q @ relation @ q
         @ '', s.object_type, s.object_id FROM '' @ referencedTableName
         @ '' r, tuples s WHERE s.subject_type = '' @ q @ subjectType @ q
         @ '' AND s.subject_relation = '' @ q @ subjectRelation @ q @ '' AND'' @ nl @ tab
         @ tab @ tab @ ''  s.relation = '' @ q @ relation @ q @ '' AND s.object_type = ''
         @ q @ objectType @ q @ '' AND'' @ nl @ tab @ tab @ tab
         @ ''  s.subject_type = r.object_type AND s.subject_id = r.object_id AND'' @ nl
         @ tab @ tab @ tab @ ''  s.subject_relation = r.relation'')"

text \<open>
  The loop of \<open>materializeDirect\<close> over the directly-related user types: a reference
  without relation or wildcard adds a quoted subject type, one with a non-empty relation
  adds a nested statement, any other is skipped.
\<close>

fun direct_references ::
  "string \<Rightarrow> string \<Rightarrow> RelationReference list \<Rightarrow> string list \<times> string list" where
  "direct_references objectType relation [] = ([], [])"
| "direct_references objectType relation (ref # refs) =
     (let (subjectTypes, nestedStatements) = direct_references objectType relation refs
      in case ref_RelationOrWildcard ref of
           None \<Rightarrow> ((q @ ref_Type ref @ q) # subjectTypes, nestedStatements)
         | Some (RefRelation subjectRelation) \<Rightarrow>
             if subjectRelation \<noteq> []
             then (subjectTypes,
                   nested_direct_sql objectType relation (ref_Type ref) subjectRelation
                     # nestedStatements)
             else (subjectTypes, nestedStatements)
         | Some RefWildcard \<Rightarrow> (subjectTypes, nestedStatements))"

definition materializeDirect :: "TypeSystem \<Rightarrow> string \<Rightarrow> string \<Rightarrow> panic + namedSQLStatement" where
  "materializeDirect typesys objectType relation =
     (case GetRelation typesys objectType relation of
        Inl e \<Rightarrow> Inl (PanicErr e)
      | Inr rel \<Rightarrow>
          (let (subjectTypes, nestedStatements) =
                 direct_references objectType relation (DirectlyRelatedUserTypes rel)
           in Inr \<lparr>stmt_name = statement_name objectType relation,
                   stmt_sql =
       ''SELECT subject_type, subject_id, subject_relation, relation, object_type,object_id FROM tuples WHERE object_type=''
         @ q @ objectType @ q @ '' AND relation='' @ q @ relation @ q
         @ '' AND subject_type IN ('' @ Join subjectTypes '',''
         @ '') AND subject_relation='' @ q @ q
         @ (if length nestedStatements > 0 then '' UNION '' else [])
         @ Join nestedStatements '' UNION ''\<rparr>))"

definition materializeComputedUserset :: "string \<Rightarrow> string \<Rightarrow> string \<Rightarrow> namedSQLStatement" where
  "materializeComputedUserset objectType relation rewrittenRelation =
     (let rewrittenStatementName = statement_name objectType rewrittenRelation in
      \<lparr>stmt_name = statement_name objectType relation,
       stmt_sql =
       ''SELECT subject_type, subject_id, subject_relation, '' @ q @ relation @ q
         @ '', object_type,object_id FROM '' @ rewrittenStatementName\<rparr>)"

definition ttu_join_sql :: "string \<Rightarrow> string \<Rightarrow> string \<Rightarrow> string \<Rightarrow> string \<Rightarrow> string" where
  "ttu_join_sql objectType relation tuplesetRelation computedRelation subjectType =
       ''SELECT i.subject_type, i.subject_id, i.subject_relation, '' @ q @ computedRelation
         @ q @ '', p.object_type, p.object_id'' @ nl @ tab @ tab @ tab @ ''FROM ''
         @ statement_name objectType relation @ '' p, ''
         @ statement_name subjectType computedRelation @ '' i'' @ nl @ tab @ tab @ tab
         @ ''WHERE p.relation = '' @ q @ tuplesetRelation @ q @ '' AND p.object_type = ''
         @ q @ objectType @ q @ nl @ tab @ tab @ tab
         @ ''AND p.subject_type = i.object_type AND p.subject_id = i.object_id'' @ nl @ tab
         @ tab @ tab @ ''AND i.relation = '' @ q @ computedRelation @ q"

text \<open>
  The first loop of \<open>materializeTupleToUserset\<close>: the related types on which the
  computed relation is defined, in order.
\<close>

definition ttu_subject_types :: "TypeSystem \<Rightarrow> string \<Rightarrow> RelationReference list \<Rightarrow> string list" where
  "ttu_subject_types typesys computedRelation relatedTypes =
     map ref_Type
       (filter (\<lambda>relatedType.
          case GetRelation typesys (ref_Type relatedType) computedRelation of
            Inl e \<Rightarrow> False | Inr rel \<Rightarrow> True) relatedTypes)"

definition materializeTupleToUserset ::
  "TypeSystem \<Rightarrow> string \<Rightarrow> string \<Rightarrow> string \<Rightarrow> string \<Rightarrow> panic + namedSQLStatement" where
  "materializeTupleToUserset typesys objectType relation tuplesetRelation computedRelation =
     (case GetDirectlyRelatedUserTypes typesys objectType tuplesetRelation of
        Inl e \<Rightarrow> Inl (PanicErr e)
      | Inr relatedTypes \<Rightarrow>
          (let subjectTypes = ttu_subject_types typesys computedRelation relatedTypes;
               quotedSubjectTypes = map (\<lambda>subjectType. q @ subjectType @ q) subjectTypes
           in Inr \<lparr>stmt_name = statement_name objectType relation,
                   stmt_sql =
       ''SELECT subject_type, subject_id, subject_relation, relation, object_type, object_id''
         @ nl @ ''    FROM tuples'' @ nl @ ''    WHERE subject_type IN (''
         @ Join quotedSubjectTypes '','' @ '') AND relation = '' @ q @ tuplesetRelation @ q
         @ '' AND object_type = '' @ q @ objectType @ q @ '' UNION ''
         @ Join (map (ttu_join_sql objectType relation tuplesetRelation computedRelation)
                   subjectTypes) '' UNION ''\<rparr>))"

text \<open>
  The loop of the \<open>Intersection\<close> case: operand \<open>i\<close> of \<open>n\<close> becomes the common
  table \<open>operand_i\<close>.
\<close>

definition operand :: "nat \<Rightarrow> string" where
  "operand i = ''operand_'' @ string_of_nat i"

fun intersection_operands :: "nat \<Rightarrow> nat \<Rightarrow> string list \<Rightarrow> string" where
  "intersection_operands i n [] = []"
| "intersection_operands i n (s # rest) =
     (if i = 0 then ''WITH '' @ operand i @ '' AS ('' else operand i @ '' AS ('')
       @ s @ (if i < n - 1 then ''), '' else '')'')
       @ intersection_operands (Suc i) n rest"

definition index_out_of_range :: string where
  "index_out_of_range = ''runtime error: index out of range [0] with length 0''"

fun materializeInternalWithRewrite ::
  "TypeSystem \<Rightarrow> string \<Rightarrow> string \<Rightarrow> Userset \<Rightarrow> panic + namedSQLStatement" where
  "materializeInternalWithRewrite typesys objectType relation Userset_This =
     materializeDirect typesys objectType relation"
| "materializeInternalWithRewrite typesys objectType relation (Userset_ComputedUserset rewrittenRelation) =
     Inr (materializeComputedUserset objectType relation rewrittenRelation)"
| "materializeInternalWithRewrite typesys objectType relation
       (Userset_TupleToUserset tuplesetRelation computedRelation) =
     materializeTupleToUserset typesys objectType relation tuplesetRelation computedRelation"
| "materializeInternalWithRewrite typesys objectType relation (Userset_Union childRewrites) =
     (case built (map (materializeInternalWithRewrite typesys objectType relation) childRewrites) of
        Inl p \<Rightarrow> Inl p
      | Inr statements \<Rightarrow>
          Inr \<lparr>stmt_name = statement_name objectType relation,
               stmt_sql = Join (map stmt_sql statements) '' UNION ''\<rparr>)"
| "materializeInternalWithRewrite typesys objectType relation (Userset_Intersection childRewrites) =
     (case built (map (materializeInternalWithRewrite typesys objectType relation) childRewrites) of
        Inl p \<Rightarrow> Inl p
      | Inr statements \<Rightarrow>
          (let operands = map operand [0..<length childRewrites];
               sql = intersection_operands 0 (length childRewrites) (map stmt_sql statements)
           in if length childRewrites > 1 then
                Inr \<lparr>stmt_name = statement_name objectType relation,
                     stmt_sql = sql @
       ''SELECT subject_type, subject_id, subject_relation, relation, object_type, object_id FROM ''
         @ operand 0 @ '' WHERE EXISTS (SELECT FROM '' @ Join (tl operands) '','' @ '')''\<rparr>
              else if operands = [] then Inl (Panic index_out_of_range)
              else
                Inr \<lparr>stmt_name = statement_name objectType relation,
                     stmt_sql = sql @
       ''SELECT subject_type, subject_id, subject_relation, relation, object_type, object_id FROM ''
         @ operand 0\<rparr>))"
| "materializeInternalWithRewrite typesys objectType relation (Userset_Difference baseRewrite subtractRewrite) =
     (case materializeInternalWithRewrite typesys objectType relation baseRewrite of
        Inl p \<Rightarrow> Inl p
      | Inr baseStatement \<Rightarrow>
          (case materializeInternalWithRewrite typesys objectType relation subtractRewrite of
             Inl p \<Rightarrow> Inl p
           | Inr subtractStatement \<Rightarrow>
               Inr \<lparr>stmt_name = statement_name objectType relation,
                    stmt_sql =
       ''WITH base AS ('' @ stmt_sql baseStatement @ ''), subtract AS (''
         @ stmt_sql subtractStatement
         @ '') SELECT subject_type, subject_id, subject_relation, '' @ q @ relation @ q
         @ '', object_type, object_id FROM base b WHERE NOT EXISTS (SELECT FROM subtract s WHERE b.subject_type=s.subject_type AND b.subject_id=s.subject_id AND b.object_type=s.object_type AND b.object_id=s.object_id)''\<rparr>))"
| "materializeInternalWithRewrite typesys objectType relation Userset_unset =
     Inl (Panic ''rewrite unsupported for indexing at this time'')"

definition materializeInternal :: "TypeSystem \<Rightarrow> string \<Rightarrow> string \<Rightarrow> panic + namedSQLStatement" where
  "materializeInternal typesys objectType relation =
     (case GetRelation typesys objectType relation of
        Inl e \<Rightarrow> Inl (PanicErr e)
      | Inr rel \<Rightarrow> materializeInternalWithRewrite typesys objectType relation (Rewrite rel))"

text \<open>
  The form the spec gives for a \<open>Difference\<close> (4.6):
  \<open>base WHERE NOT EXISTS (SELECT ... FROM subtract WHERE <key-equal>)\<close>, where key-equal
  is the equality of the subject and object key columns of the base row \<open>b\<close> and the
  subtract row \<open>s\<close>.
\<close>

definition key_columns :: "string list" where
  "key_columns = [''subject_type'', ''subject_id'', ''object_type'', ''object_id'']"

definition key_equal :: "string list \<Rightarrow> string" where
  "key_equal columns = Join (map (\<lambda>column. ''b.'' @ column @ ''=s.'' @ column) columns) '' AND ''"

definition spec_difference_sql :: "string \<Rightarrow> string \<Rightarrow> string \<Rightarrow> string" where
  "spec_difference_sql relation base subtract =
     ''WITH base AS ('' @ base @ ''), subtract AS ('' @ subtract
       @ '') SELECT subject_type, subject_id, subject_relation, '' @ q @ relation @ q
       @ '', object_type, object_id FROM base b WHERE NOT EXISTS (SELECT FROM subtract s WHERE ''
       @ key_equal key_columns @ '')''"

text \<open>The team model of the scenarios of the spec: ambassador = member but not limited.\<close>

definition team_model :: TypeSystem where
  "team_model =
     [(''team'',
        [(''member'', \<lparr>Rewrite = Userset_This, DirectlyRelatedUserTypes = [user_ref ''user'']\<rparr>),
         (''limited'', \<lparr>Rewrite = Userset_This, DirectlyRelatedUserTypes = [user_ref ''user'']\<rparr>),
         (''ambassador'',
            \<lparr>Rewrite = Userset_Difference (Userset_ComputedUserset ''member'')
                         (Userset_ComputedUserset ''limited''),
             DirectlyRelatedUserTypes = []\<rparr>)])]"

section \<open>The goroutines of a reducer\<close>

text \<open>
  The tasks of one reducer call and what they share: \<open>resolver\<close>'s orchestrator, one
  worker per started handler, the semaphore \<open>limiter\<close>, the \<open>sync.WaitGroup\<close> counter,
  the buffered outcomes, the two cancellation scopes, and the reducer itself.

  A worker runs its handler, publishes the outcome, takes its slot back from the semaphore
  and calls \<open>wg.Done()\<close>.
\<close>

datatype worker = NotStarted | Running | Published | Released | Exited

text \<open>
  The reducer: \<open>exclusion\<close> first starts its two workers itself (\<open>Starting i\<close>); every
  reducer then loops over the outcomes (\<open>Looping i\<close>), and on any return runs its deferred
  function: \<open>cancel()\<close>, then \<open>wg.Wait()\<close>, then the call completes.
\<close>

datatype mainphase = Starting nat | Looping nat | Deferred | Waiting | Completed

record goroutines =
  workers :: "worker list"
  orch_next :: nat
  orch_exited :: bool
  limiter :: nat
  wg :: nat
  results :: "nat list"
  cctx_done :: bool
  ctx_done :: bool
  main :: mainphase

text \<open>
  The steps a run is made of, with the lines of check.go they stand for:
  \<^item> \<open>OrchSpawn\<close>: the orchestrator sends to \<open>limiter\<close>, calls \<open>wg.Add(1)\<close> and
    starts the next worker (80-82); \<open>OrchSkip\<close>: it sees its context done and goes to
    the next handler (83-84); \<open>OrchExit\<close>: its \<open>wg.Done()\<close> after the loop (88);
  \<^item> \<open>MainSpawn\<close>: \<open>exclusion\<close> sends to \<open>limiter\<close>, calls \<open>wg.Add(1)\<close> and
    starts the base or the subtract worker (191-193, 200-202);
  \<^item> \<open>HandlerReturns j\<close>: the handler of worker \<open>j\<close> returns and the outcome is
    sent on the buffered channel (68-69, 194-195, 203-204); \<open>ReleaseSlot j\<close>: the worker
    receives from \<open>limiter\<close> (70, 196, 205); \<open>WorkerDone j\<close>: its \<open>wg.Done()\<close>
    (71, 197, 206);
  \<^item> \<open>Receive j d\<close>: the reducer receives the outcome of worker \<open>j\<close>, \<open>d\<close>
    telling whether that outcome makes it return (114-121, 147-155, 211-226);
    \<open>ParentDone\<close>: it takes the \<open>ctx.Done()\<close> case (122-123); \<open>LoopEnds\<close>: the
    loop is over (127);
  \<^item> \<open>Cancel\<close> and \<open>WaitReturns\<close>: \<open>cancel()\<close> and the return of \<open>wg.Wait()\<close>
    in the deferred function (107-108 with 92, 182-183);
  \<^item> \<open>ParentCancelled\<close>: the caller's context is cancelled or its deadline passes.
\<close>

datatype action =
    OrchSpawn | OrchSkip | OrchExit
  | MainSpawn
  | HandlerReturns nat | ReleaseSlot nat | WorkerDone nat
  | Receive nat bool | ParentDone | LoopEnds
  | Cancel | WaitReturns
  | ParentCancelled

text \<open>
  One step, \<open>None\<close> when the step cannot be taken in the state: a send to the full
  semaphore, a receive of an outcome that is not there and \<open>wg.Wait()\<close> on a counter
  that is not zero all block.
\<close>

fun step :: "nat \<Rightarrow> action \<Rightarrow> goroutines \<Rightarrow> goroutines option" where
  "step K OrchSpawn s =
     (if \<not> orch_exited s \<and> orch_next s < length (workers s) \<and> limiter s < K
      then Some (s\<lparr>limiter := limiter s + 1, wg := wg s + 1,
                   workers := (workers s)[orch_next s := Running],
                   orch_next := orch_next s + 1\<rparr>)
      else None)"
| "step K OrchSkip s =
     (if \<not> orch_exited s \<and> orch_next s < length (workers s) \<and> (cctx_done s \<or> ctx_done s)
      then Some (s\<lparr>orch_next := orch_next s + 1\<rparr>)
      else None)"
| "step K OrchExit s =
     (if \<not> orch_exited s \<and> length (workers s) \<le> orch_next s \<and> 0 < wg s
      then Some (s\<lparr>wg := wg s - 1, orch_exited := True\<rparr>)
      else None)"
| "step K MainSpawn s =
     (case main s of
        Starting i \<Rightarrow>
          if i < length (workers s) \<and> limiter s < K
          then Some (s\<lparr>limiter := limiter s + 1, wg := wg s + 1,
                       workers := (workers s)[i := Running],
                       main := (if Suc i = length (workers s) then Looping 0 else Starting (Suc i))\<rparr>)
          else None
      | _ \<Rightarrow> None)"
| "step K (HandlerReturns j) s =
     (if j < length (workers s) \<and> workers s ! j = Running
      then Some (s\<lparr>workers := (workers s)[j := Published], results := results s @ [j]\<rparr>)
      else None)"
| "step K (ReleaseSlot j) s =
     (if j < length (workers s) \<and> workers s ! j = Published \<and> 0 < limiter s
      then Some (s\<lparr>workers := (workers s)[j := Released], limiter := limiter s - 1\<rparr>)
      else None)"
| "step K (WorkerDone j) s =
     (if j < length (workers s) \<and> workers s ! j = Released \<and> 0 < wg s
      then Some (s\<lparr>workers := (workers s)[j := Exited], wg := wg s - 1\<rparr>)
      else None)"
| "step K (Receive j d) s =
     (case main s of
        Looping i \<Rightarrow>
          if i < length (workers s) \<and> j \<in> set (results s)
          then Some (s\<lparr>results := remove1 j (results s),
                       main := (if d then Deferred else Looping (Suc i))\<rparr>)
          else None
      | _ \<Rightarrow> None)"
| "step K ParentDone s =
     (case main s of
        Looping i \<Rightarrow>
          if i < length (workers s) \<and> ctx_done s then Some (s\<lparr>main := Deferred\<rparr>) else None
      | _ \<Rightarrow> None)"
| "step K LoopEnds s =
     (case main s of
        Looping i \<Rightarrow> if length (workers s) \<le> i then Some (s\<lparr>main := Deferred\<rparr>) else None
      | _ \<Rightarrow> None)"
| "step K Cancel s =
     (if main s = Deferred then Some (s\<lparr>cctx_done := True, main := Waiting\<rparr>) else None)"
| "step K WaitReturns s =
     (if main s = Waiting \<and> wg s = 0 then Some (s\<lparr>main := Completed\<rparr>) else None)"
| "step K ParentCancelled s = Some (s\<lparr>ctx_done := True\<rparr>)"

fun run :: "nat \<Rightarrow> action list \<Rightarrow> goroutines \<Rightarrow> goroutines option" where
  "run K [] s = Some s"
| "run K (a # as) s = (case step K a s of None \<Rightarrow> None | Some s' \<Rightarrow> run K as s')"

text \<open>
  The start of \<open>union\<close> and \<open>intersection\<close> over \<open>n\<close> handlers: \<open>resolver\<close> has
  called \<open>wg.Add(1)\<close> for its orchestrator. The start of \<open>exclusion\<close>: no
  orchestrator, two handlers to start.
\<close>

definition resolver_start :: "nat \<Rightarrow> goroutines" where
  "resolver_start n =
     \<lparr>workers = replicate n NotStarted, orch_next = 0, orch_exited = False, limiter = 0,
      wg = 1, results = [], cctx_done = False, ctx_done = False, main = Looping 0\<rparr>"

definition exclusion_start :: goroutines where
  "exclusion_start =
     \<lparr>workers = replicate 2 NotStarted, orch_next = 0, orch_exited = True, limiter = 0,
      wg = 0, results = [], cctx_done = False, ctx_done = False, main = Starting 0\<rparr>"

definition alive :: "worker \<Rightarrow> bool" where
  "alive w = (w = Running \<or> w = Published \<or> w = Released)"

definition drained :: "goroutines \<Rightarrow> bool" where
  "drained s = (orch_exited s \<and> list_all (\<lambda>w. \<not> alive w) (workers s))"

text \<open>
  The counter of the wait group counts the orchestrator and the live workers; a handler
  that is still to be started has no worker yet.
\<close>

definition wg_counts :: "goroutines \<Rightarrow> bool" where
  "wg_counts s =
     (wg s = (if orch_exited s then 0 else 1) + length (filter alive (workers s))
      \<and> (main s = Completed \<longrightarrow> wg s = 0)
      \<and> (\<not> orch_exited s \<longrightarrow>
           (\<forall>j. orch_next s \<le> j \<and> j < length (workers s) \<longrightarrow> workers s ! j = NotStarted))
      \<and> (\<forall>i. main s = Starting i \<longrightarrow> orch_exited s \<and>
           (\<forall>j. i \<le> j \<and> j < length (workers s) \<longrightarrow> workers s ! j = NotStarted)))"

section \<open>Properties of the reducer loops\<close>

lemma cancel_free_map_received: "cancel_free evs \<Longrightarrow> evs = map Recv (received evs)"
  by (induction evs rule: cancel_free.induct) simp_all

lemma fair_run_indices:
  assumes "fair_run n evs"
  shows "set (received evs) = {..<n}"
proof -
  from assms have d: "distinct (received evs)" and l: "length (received evs) = n"
    and b: "\<forall>j\<in>set (received evs). j < n"
    by (simp_all add: fair_run_def list_all_iff)
  from b have sub: "set (received evs) \<subseteq> {..<n}" by auto
  from d l have "card (set (received evs)) = card {..<n}"
    by (simp add: distinct_card)
  with sub show ?thesis by (simp add: card_subset_eq)
qed

lemma union_loop_sound:
  "is_allowed (union_loop K hs n evs) \<Longrightarrow> \<exists>h\<in>set hs. is_allowed h"
proof (induction K hs n evs rule: union_loop.induct)
  case (4 K hs n j evs)
  show ?case
  proof (cases "K = 0 \<or> length hs \<le> j")
    case True
    with 4 show ?thesis by (simp add: is_allowed_def)
  next
    case False
    then have j: "j < length hs" by simp
    show ?thesis
    proof (cases "hs ! j")
      case (Returned r e)
      show ?thesis
      proof (cases "e = None \<and> \<not> GetAllowed r")
        case True
        with 4 False Returned show ?thesis by simp
      next
        case False
        with 4 \<open>\<not> (K = 0 \<or> length hs \<le> j)\<close> Returned
        have "is_allowed (hs ! j)"
          by (auto simp: is_allowed_def GetAllowed_def split: if_splits)
        with j show ?thesis by (metis nth_mem)
      qed
    next
      case (Panicked m)
      with 4 False show ?thesis by (simp add: is_allowed_def)
    next
      case Blocked
      with 4 False show ?thesis by (simp add: is_allowed_def)
    qed
  qed
qed (simp_all add: is_allowed_def GetAllowed_def)

lemma union_loop_skip:
  assumes "K \<noteq> 0" and "\<forall>i\<in>set pre. i < length hs \<and> union_pass (hs ! i)"
    and "length pre \<le> n"
  shows "union_loop K hs n (map Recv pre @ evs) = union_loop K hs (n - length pre) evs"
  using assms
proof (induction pre arbitrary: n)
  case Nil
  then show ?case by simp
next
  case (Cons i pre)
  then obtain m where n: "n = Suc m" by (cases n) auto
  from Cons.prems have i: "i < length hs" "union_pass (hs ! i)" by simp_all
  then obtain r where r: "hs ! i = Returned r None" "\<not> GetAllowed r"
    by (auto simp: union_pass_def split: exec.splits)
  from Cons.prems n have "union_loop K hs m (map Recv pre @ evs) = union_loop K hs (m - length pre) evs"
    by (intro Cons.IH) simp_all
  with n i r Cons.prems(1) show ?case by simp
qed

lemma union_loop_allowed_split:
  assumes "K \<noteq> 0" and "is_allowed (union_loop K hs n (map Recv js))"
  shows "\<exists>pre j rest. js = pre @ j # rest \<and> j < length hs \<and> is_allowed (hs ! j)
           \<and> (\<forall>i\<in>set pre. union_pass (hs ! i))"
  using assms
proof (induction js arbitrary: n)
  case Nil
  then show ?case by (cases n) (simp_all add: is_allowed_def GetAllowed_def)
next
  case (Cons a js)
  show ?case
  proof (cases n)
    case 0
    with Cons.prems show ?thesis by (simp add: is_allowed_def GetAllowed_def)
  next
    case (Suc m)
    show ?thesis
    proof (cases "a < length hs \<and> union_pass (hs ! a)")
      case True
      then obtain r where r: "hs ! a = Returned r None" "\<not> GetAllowed r"
        by (auto simp: union_pass_def split: exec.splits)
      with Cons.prems Suc True have "is_allowed (union_loop K hs m (map Recv js))" by simp
      from Cons.IH [OF Cons.prems(1) this] obtain pre j rest where
        "js = pre @ j # rest" "j < length hs" "is_allowed (hs ! j)" "\<forall>i\<in>set pre. union_pass (hs ! i)"
        by blast
      with True have "a # js = (a # pre) @ j # rest \<and> j < length hs \<and> is_allowed (hs ! j)
           \<and> (\<forall>i\<in>set (a # pre). union_pass (hs ! i))" by simp
      then show ?thesis by blast
    next
      case False
      with Cons.prems Suc have "a < length hs \<and> is_allowed (hs ! a)"
        by (auto simp: is_allowed_def union_pass_def GetAllowed_def split: exec.splits if_splits)
      then have "a # js = [] @ a # js \<and> a < length hs \<and> is_allowed (hs ! a)
           \<and> (\<forall>i\<in>set []. union_pass (hs ! i))" by simp
      then show ?thesis by blast
    qed
  qed
qed

lemma union_loop_no_error:
  assumes "K \<noteq> 0" and "\<forall>j\<in>set js. j < length hs" and "\<forall>h\<in>set hs. returns_ok h"
    and "length js = n"
  shows "is_allowed (union_loop K hs n (map Recv js)) \<longleftrightarrow> (\<exists>j\<in>set js. is_allowed (hs ! j))"
  using assms
proof (induction js arbitrary: n)
  case Nil
  then show ?case by (simp add: is_allowed_def GetAllowed_def)
next
  case (Cons a js)
  then obtain m where n: "n = Suc m" and m: "length js = m" by (cases n) auto
  from Cons.prems have a: "a < length hs" by simp
  with Cons.prems(3) have "returns_ok (hs ! a)" by simp
  then obtain r where r: "hs ! a = Returned r None"
    by (auto simp: returns_ok_def split: exec.splits)
  have IH: "is_allowed (union_loop K hs m (map Recv js)) \<longleftrightarrow> (\<exists>j\<in>set js. is_allowed (hs ! j))"
    using Cons.prems m by (intro Cons.IH) simp_all
  show ?case
  proof (cases "GetAllowed r")
    case True
    with n a r Cons.prems(1) show ?thesis by (simp add: is_allowed_def)
  next
    case False
    with n a r Cons.prems(1) IH show ?thesis by (simp add: is_allowed_def)
  qed
qed

lemma intersection_loop_all:
  assumes "K \<noteq> 0" and "\<forall>j\<in>set js. j < length hs" and "length js = n"
  shows "is_allowed (intersection_loop K hs n (map Recv js)) \<longleftrightarrow> (\<forall>j\<in>set js. is_allowed (hs ! j))"
  using assms
proof (induction js arbitrary: n)
  case Nil
  then show ?case by (simp add: is_allowed_def GetAllowed_def)
next
  case (Cons a js)
  then obtain m where n: "n = Suc m" and m: "length js = m" by (cases n) auto
  from Cons.prems have a: "a < length hs" by simp
  have IH: "is_allowed (intersection_loop K hs m (map Recv js)) \<longleftrightarrow> (\<forall>j\<in>set js. is_allowed (hs ! j))"
    using Cons.prems m by (intro Cons.IH) simp_all
  show ?case
  proof (cases "hs ! a")
    case (Returned r e)
    with n a Cons.prems(1) IH show ?thesis
      by (cases e) (auto simp: is_allowed_def GetAllowed_def)
  next
    case (Panicked x)
    with n a Cons.prems(1) show ?thesis by (simp add: is_allowed_def)
  next
    case Blocked
    with n a Cons.prems(1) show ?thesis by (simp add: is_allowed_def)
  qed
qed

lemma intersection_loop_skip:
  assumes "K \<noteq> 0" and "\<forall>i\<in>set pre. i < length hs \<and> is_allowed (hs ! i)"
    and "length pre \<le> n"
  shows "intersection_loop K hs n (map Recv pre @ evs) = intersection_loop K hs (n - length pre) evs"
  using assms
proof (induction pre arbitrary: n)
  case Nil
  then show ?case by simp
next
  case (Cons i pre)
  then obtain m where n: "n = Suc m" by (cases n) auto
  from Cons.prems have i: "i < length hs" "is_allowed (hs ! i)" by simp_all
  then obtain r where r: "hs ! i = Returned r None" "GetAllowed r"
    by (auto simp: is_allowed_def split: exec.splits)
  from Cons.prems n have "intersection_loop K hs m (map Recv pre @ evs) = intersection_loop K hs (m - length pre) evs"
    by (intro Cons.IH) simp_all
  with n i r Cons.prems(1) show ?case by simp
qed

lemma fair_run_two:
  assumes "fair_run 2 evs"
  shows "evs = [Recv 0, Recv 1] \<or> evs = [Recv 1, Recv 0]"
proof -
  from assms have cf: "cancel_free evs" and d: "distinct (received evs)"
    and l: "length (received evs) = 2" and b: "\<forall>j\<in>set (received evs). j < 2"
    by (simp_all add: fair_run_def list_all_iff)
  from l obtain x y where xy: "received evs = [x, y]"
    by (metis (no_types, opaque_lifting) length_0_conv length_Suc_conv numeral_2_eq_2)
  with d b have "x < 2" "y < 2" "x \<noteq> y" by simp_all
  then have "(x = 0 \<and> y = 1) \<or> (x = 1 \<and> y = 0)" by arith
  with xy cancel_free_map_received [OF cf] show ?thesis by auto
qed

lemma exclusion_fair:
  assumes "K \<noteq> 0" and "fair_run 2 evs"
  shows "is_allowed (exclusion K [b, s] evs) \<longleftrightarrow> is_allowed b \<and> is_denied s"
proof -
  from fair_run_two [OF assms(2)] show ?thesis
  proof
    assume "evs = [Recv 0, Recv 1]"
    with assms(1) show ?thesis
      by (auto simp: exclusion_def is_allowed_def is_denied_def GetAllowed_def numeral_2_eq_2
          split: exec.splits option.splits)
  next
    assume "evs = [Recv 1, Recv 0]"
    with assms(1) show ?thesis
      by (auto simp: exclusion_def is_allowed_def is_denied_def GetAllowed_def numeral_2_eq_2
          split: exec.splits option.splits)
  qed
qed

lemma exclusion_loop_skip:
  assumes "\<forall>i\<in>set pre. i < 2 \<and> exclusion_pass i b s" and "length pre \<le> n"
  shows "exclusion_loop b s n (map Recv pre @ evs) = exclusion_loop b s (n - length pre) evs"
  using assms
proof (induction pre arbitrary: n)
  case Nil
  then show ?case by simp
next
  case (Cons i pre)
  then obtain m where n: "n = Suc m" by (cases n) auto
  from Cons.prems n have IH: "exclusion_loop b s m (map Recv pre @ evs) = exclusion_loop b s (m - length pre) evs"
    by (intro Cons.IH) simp_all
  from Cons.prems have "i = 0 \<or> i = 1" by auto
  then show ?case
  proof
    assume i: "i = 0"
    with Cons.prems have "is_allowed b" by (simp add: exclusion_pass_def)
    then obtain x where "b = Returned (Some x) None" "Allowed x"
      by (auto simp: is_allowed_def GetAllowed_def split: exec.splits option.splits)
    with n i IH show ?thesis by simp
  next
    assume i: "i = 1"
    with Cons.prems have "is_denied s" by (simp add: exclusion_pass_def)
    then obtain x where "s = Returned (Some x) None" "\<not> Allowed x"
      by (auto simp: is_denied_def GetAllowed_def split: exec.splits option.splits)
    with n i IH show ?thesis by simp
  qed
qed

lemma union_first_decisive:
  assumes "K \<noteq> 0" and "length pre < length hs"
    and "\<forall>i\<in>set pre. i < length hs \<and> union_pass (hs ! i)"
  shows "union_reducer K hs (map Recv pre @ evs) = union_loop K hs (length hs - length pre) evs"
  using union_loop_skip [OF assms(1) assms(3), of "length hs" evs] assms(2)
  by (simp add: union_reducer_def)

lemma intersection_first_decisive:
  assumes "K \<noteq> 0" and "length pre < length hs"
    and "\<forall>i\<in>set pre. i < length hs \<and> is_allowed (hs ! i)"
  shows "intersection K hs (map Recv pre @ evs) = intersection_loop K hs (length hs - length pre) evs"
  using intersection_loop_skip [OF assms(1) assms(3), of "length hs" evs] assms(2)
  by (simp add: intersection_def)

lemma exclusion_two: "K \<noteq> 0 \<Longrightarrow> exclusion K [b, s] evs = exclusion_loop b s 2 evs"
  by (simp add: exclusion_def numeral_2_eq_2)

lemma exclusion_first_decisive:
  assumes "K \<noteq> 0" and "length pre < 2" and "\<forall>i\<in>set pre. i < 2 \<and> exclusion_pass i b s"
  shows "exclusion K [b, s] (map Recv pre @ evs) = exclusion_loop b s (2 - length pre) evs"
proof -
  from assms(2) have "length pre \<le> 2" by simp
  from exclusion_loop_skip [OF assms(3) this] show ?thesis
    by (simp only: exclusion_two [OF assms(1)])
qed

lemma union_fair_sound_complete:
  assumes "K \<noteq> 0" and "fair_run (length hs) evs" and "\<forall>h\<in>set hs. returns_ok h"
  shows "is_allowed (union_reducer K hs evs) \<longleftrightarrow> (\<exists>h\<in>set hs. is_allowed h)"
proof -
  let ?js = "received evs"
  from assms(2) have evs: "evs = map Recv ?js" and len: "length ?js = length hs"
    by (simp_all add: fair_run_def cancel_free_map_received)
  have idx: "set ?js = {..<length hs}" by (rule fair_run_indices [OF assms(2)])
  then have bound: "\<forall>j\<in>set ?js. j < length hs" by simp
  have "is_allowed (union_loop K hs (length hs) (map Recv ?js)) \<longleftrightarrow> (\<exists>j\<in>set ?js. is_allowed (hs ! j))"
    by (rule union_loop_no_error [OF assms(1) bound assms(3) len])
  also have "\<dots> \<longleftrightarrow> (\<exists>h\<in>set hs. is_allowed h)"
    unfolding idx by (auto simp: Bex_def Ball_def in_set_conv_nth)
  finally show ?thesis using evs by (simp add: union_reducer_def)
qed

lemma intersection_fair:
  assumes "K \<noteq> 0" and "fair_run (length hs) evs"
  shows "is_allowed (intersection K hs evs) \<longleftrightarrow> (\<forall>h\<in>set hs. is_allowed h)"
proof -
  let ?js = "received evs"
  from assms(2) have evs: "evs = map Recv ?js" and len: "length ?js = length hs"
    by (simp_all add: fair_run_def cancel_free_map_received)
  have idx: "set ?js = {..<length hs}" by (rule fair_run_indices [OF assms(2)])
  then have bound: "\<forall>j\<in>set ?js. j < length hs" by simp
  have "is_allowed (intersection_loop K hs (length hs) (map Recv ?js)) \<longleftrightarrow> (\<forall>j\<in>set ?js. is_allowed (hs ! j))"
    by (rule intersection_loop_all [OF assms(1) bound len])
  also have "\<dots> \<longleftrightarrow> (\<forall>h\<in>set hs. is_allowed h)"
    unfolding idx by (auto simp: Bex_def Ball_def in_set_conv_nth)
  finally show ?thesis using evs by (simp add: intersection_def)
qed

lemma union_error_lost_race:
  assumes "K \<noteq> 0" and "fair_run (length hs) evs" and "is_allowed (union_reducer K hs evs)"
    and "j < length hs" and "is_error (hs ! j) e"
  shows "\<exists>pre w rest. received evs = pre @ w # rest \<and> is_allowed (hs ! w) \<and> j \<in> set rest"
proof -
  let ?js = "received evs"
  from assms(2) have evs: "evs = map Recv ?js"
    by (simp add: fair_run_def cancel_free_map_received)
  with assms(3) have "is_allowed (union_loop K hs (length hs) (map Recv ?js))"
    by (simp add: union_reducer_def)
  from union_loop_allowed_split [OF assms(1) this] obtain pre w rest where
    split: "?js = pre @ w # rest" and w: "is_allowed (hs ! w)"
    and pre: "\<forall>i\<in>set pre. union_pass (hs ! i)" by blast
  from assms(4) fair_run_indices [OF assms(2)] have "j \<in> set ?js" by simp
  moreover from w assms(5) have "j \<noteq> w"
    by (auto simp: is_allowed_def is_error_def split: exec.splits)
  moreover from pre assms(5) have "j \<notin> set pre"
    by (auto simp: union_pass_def is_error_def split: exec.splits)
  ultimately have "j \<in> set rest" using split by auto
  with split w show ?thesis by blast
qed

section \<open>Reducer correctness\<close>

text \<open>
  Claim C1, as the code has it. In every run in which the concurrency limit is at least 1,
  the context is never done and every handler's outcome is delivered once (in any order):
  \<^item> if \<open>union\<close> returns allowed then some child resolved allowed, and when every child
    returns without an error \<open>union\<close> returns allowed iff at least one child resolves
    allowed;
  \<^item> \<open>intersection\<close> returns allowed iff every child resolves allowed;
  \<^item> \<open>exclusion\<close> over (base, subtract) returns allowed iff base resolves allowed and
    subtract resolves denied.
  Each reducer stops at the first outcome that decides its result, whatever follows it in
  the schedule: \<open>union\<close> at the first allowed outcome, \<open>intersection\<close> at the first
  outcome that is not allowed, \<open>exclusion\<close> at a denied base or an allowed subtract.
\<close>

theorem reducers_decide_on_fair_runs:
  assumes "K \<noteq> 0" and "fair_run (length hs) evs" and "fair_run 2 evs2"
  shows "(is_allowed (union_reducer K hs evs) \<longrightarrow> (\<exists>h\<in>set hs. is_allowed h))
    \<and> ((\<forall>h\<in>set hs. returns_ok h) \<longrightarrow>
          (is_allowed (union_reducer K hs evs) \<longleftrightarrow> (\<exists>h\<in>set hs. is_allowed h)))
    \<and> (is_allowed (intersection K hs evs) \<longleftrightarrow> (\<forall>h\<in>set hs. is_allowed h))
    \<and> (is_allowed (exclusion K [b, s] evs2) \<longleftrightarrow> is_allowed b \<and> is_denied s)
    \<and> (length pre < length hs \<and> (\<forall>i\<in>set pre. i < length hs \<and> union_pass (hs ! i))
          \<and> j < length hs \<and> is_allowed (hs ! j) \<longrightarrow>
        union_reducer K hs (map Recv pre @ Recv j # rest) = hs ! j)
    \<and> (length pre' < length hs \<and> (\<forall>i\<in>set pre'. i < length hs \<and> is_allowed (hs ! i))
          \<and> j' < length hs \<and> union_pass (hs ! j') \<longrightarrow>
        intersection K hs (map Recv pre' @ Recv j' # rest) = hs ! j')
    \<and> (is_denied b' \<longrightarrow>
        exclusion K [b', s'] (Recv 0 # rest) = Returned (Some \<lparr>Allowed = False\<rparr>) None)
    \<and> (is_allowed s' \<longrightarrow>
        exclusion K [b', s'] (Recv 1 # rest) = Returned (Some \<lparr>Allowed = False\<rparr>) None)"
proof (intro conjI impI)
  assume "is_allowed (union_reducer K hs evs)"
  then show "\<exists>h\<in>set hs. is_allowed h"
    unfolding union_reducer_def by (rule union_loop_sound)
next
  assume "\<forall>h\<in>set hs. returns_ok h"
  with assms show "is_allowed (union_reducer K hs evs) \<longleftrightarrow> (\<exists>h\<in>set hs. is_allowed h)"
    by (intro union_fair_sound_complete)
next
  from assms show "is_allowed (intersection K hs evs) \<longleftrightarrow> (\<forall>h\<in>set hs. is_allowed h)"
    by (intro intersection_fair)
next
  from assms show "is_allowed (exclusion K [b, s] evs2) \<longleftrightarrow> is_allowed b \<and> is_denied s"
    by (intro exclusion_fair)
next
  assume h: "length pre < length hs \<and> (\<forall>i\<in>set pre. i < length hs \<and> union_pass (hs ! i))
          \<and> j < length hs \<and> is_allowed (hs ! j)"
  then obtain m where m: "length hs - length pre = Suc m"
    by (cases "length hs - length pre") auto
  from h obtain r where r: "hs ! j = Returned r None" "GetAllowed r"
    by (auto simp: is_allowed_def split: exec.splits)
  from h have "union_reducer K hs (map Recv pre @ Recv j # rest)
      = union_loop K hs (length hs - length pre) (Recv j # rest)"
    by (intro union_first_decisive assms) simp_all
  with m r h assms(1) show "union_reducer K hs (map Recv pre @ Recv j # rest) = hs ! j"
    by simp
next
  assume h: "length pre' < length hs \<and> (\<forall>i\<in>set pre'. i < length hs \<and> is_allowed (hs ! i))
          \<and> j' < length hs \<and> union_pass (hs ! j')"
  then obtain m where m: "length hs - length pre' = Suc m"
    by (cases "length hs - length pre'") auto
  from h obtain r where r: "hs ! j' = Returned r None" "\<not> GetAllowed r"
    by (auto simp: union_pass_def split: exec.splits)
  from h have "intersection K hs (map Recv pre' @ Recv j' # rest)
      = intersection_loop K hs (length hs - length pre') (Recv j' # rest)"
    by (intro intersection_first_decisive assms) simp_all
  with m r h assms(1) show "intersection K hs (map Recv pre' @ Recv j' # rest) = hs ! j'"
    by simp
next
  assume "is_denied b'"
  then obtain x where "b' = Returned (Some x) None" "\<not> Allowed x"
    by (auto simp: is_denied_def GetAllowed_def split: exec.splits option.splits)
  with assms(1) show "exclusion K [b', s'] (Recv 0 # rest) = Returned (Some \<lparr>Allowed = False\<rparr>) None"
    by (simp add: exclusion_two numeral_2_eq_2)
next
  assume "is_allowed s'"
  then obtain x where "s' = Returned (Some x) None" "Allowed x"
    by (auto simp: is_allowed_def GetAllowed_def split: exec.splits option.splits)
  with assms(1) show "exclusion K [b', s'] (Recv 1 # rest) = Returned (Some \<lparr>Allowed = False\<rparr>) None"
    by (simp add: exclusion_two numeral_2_eq_2)
qed

theorem reducers_decide_on_fair_runs_witness:
  "(1 :: 32 word) \<noteq> 0
   \<and> fair_run 2 [Recv 0, Recv 1] \<and> fair_run 2 [Recv 1, Recv 0]
   \<and> is_allowed (union_reducer 1
        [Returned (Some \<lparr>Allowed = False\<rparr>) None, Returned (Some \<lparr>Allowed = True\<rparr>) None]
        [Recv 0, Recv 1])
   \<and> \<not> is_allowed (intersection 1
        [Returned (Some \<lparr>Allowed = False\<rparr>) None, Returned (Some \<lparr>Allowed = True\<rparr>) None]
        [Recv 0, Recv 1])
   \<and> is_allowed (exclusion 1
        [Returned (Some \<lparr>Allowed = True\<rparr>) None, Returned (Some \<lparr>Allowed = False\<rparr>) None]
        [Recv 1, Recv 0])
   \<and> union_reducer 1
        [Returned (Some \<lparr>Allowed = False\<rparr>) None, Returned (Some \<lparr>Allowed = True\<rparr>) None]
        [Recv 0, Recv 1, CtxDone Canceled] = Returned (Some \<lparr>Allowed = True\<rparr>) None
   \<and> intersection 1
        [Returned (Some \<lparr>Allowed = False\<rparr>) None, Returned (Some \<lparr>Allowed = True\<rparr>) None]
        [Recv 1, Recv 0, CtxDone Canceled] = Returned (Some \<lparr>Allowed = False\<rparr>) None
   \<and> exclusion 1
        [Returned (Some \<lparr>Allowed = False\<rparr>) None, Returned (Some \<lparr>Allowed = True\<rparr>) None]
        [Recv 0, CtxDone Canceled] = Returned (Some \<lparr>Allowed = False\<rparr>) None
   \<and> exclusion 1
        [Returned (Some \<lparr>Allowed = False\<rparr>) None, Returned (Some \<lparr>Allowed = True\<rparr>) None]
        [Recv 1, CtxDone Canceled] = Returned (Some \<lparr>Allowed = False\<rparr>) None"
proof -
  let ?D = "Returned (Some \<lparr>Allowed = False\<rparr>) None"
  let ?A = "Returned (Some \<lparr>Allowed = True\<rparr>) None"
  have k: "(1 :: 32 word) \<noteq> 0" by simp
  have f1: "fair_run (length [?D, ?A]) [Recv 0, Recv 1]" by (simp add: fair_run_def)
  have f2: "fair_run 2 [Recv 1, Recv 0]" by (simp add: fair_run_def)
  have f3: "fair_run 2 [Recv 0, Recv 1]" by (simp add: fair_run_def)
  have p: "is_allowed ?A" "is_denied ?D" "union_pass ?D" "returns_ok ?A" "returns_ok ?D"
    "\<not> is_allowed ?D"
    by (simp_all add: is_allowed_def is_denied_def union_pass_def returns_ok_def GetAllowed_def)
  from reducers_decide_on_fair_runs [OF k f1 f2, of ?A ?D "[0]" 1 "[CtxDone Canceled]" "[1]" 0 ?D ?A]
  show ?thesis using k f2 f3 p by simp
qed

text \<open>
  Claim C1 as stated fails: a child that resolves allowed does not make \<open>union\<close>
  return allowed when the error of another child is received first.
\<close>

theorem union_error_before_allowed_counterexample:
  "fair_run 2 [Recv 0, Recv 1]
   \<and> is_allowed (Returned (Some \<lparr>Allowed = True\<rparr>) None)
   \<and> union_reducer 1
        [Returned None (Some (Err ''storage failure'')), Returned (Some \<lparr>Allowed = True\<rparr>) None]
        [Recv 0, Recv 1]
      = Returned (Some \<lparr>Allowed = False\<rparr>) (Some (Err ''storage failure''))
   \<and> \<not> is_allowed (union_reducer 1
        [Returned None (Some (Err ''storage failure'')), Returned (Some \<lparr>Allowed = True\<rparr>) None]
        [Recv 0, Recv 1])"
  by (simp add: fair_run_def is_allowed_def GetAllowed_def union_reducer_def)

section \<open>Error propagation in the reducers\<close>

lemma intersection_error_not_allowed:
  assumes "K \<noteq> 0" and "fair_run (length hs) evs" and "j < length hs" and "is_error (hs ! j) e"
  shows "\<not> is_allowed (intersection K hs evs)"
proof
  assume "is_allowed (intersection K hs evs)"
  with intersection_fair [OF assms(1,2)] have "\<forall>h\<in>set hs. is_allowed h" by simp
  with assms(3) have "is_allowed (hs ! j)" by simp
  with assms(4) show False
    by (auto simp: is_allowed_def is_error_def split: exec.splits)
qed

lemma exclusion_error_not_allowed:
  assumes "K \<noteq> 0" and "fair_run 2 evs" and "j < 2" and "is_error ([b, s] ! j) e"
  shows "\<not> is_allowed (exclusion K [b, s] evs)"
proof
  assume "is_allowed (exclusion K [b, s] evs)"
  with exclusion_fair [OF assms(1,2)] have bs: "is_allowed b" "is_denied s" by simp_all
  from assms(3) have "j = 0 \<or> j = 1" by arith
  with assms(4) bs show False
    by (auto simp: is_allowed_def is_denied_def is_error_def split: exec.splits)
qed

text \<open>
  Claim C3. When the first outcome that ends a reducer's loop is an error, the reducer
  returns that error with \<open>Allowed = false\<close>, never a plain denied answer: for
  \<open>union\<close> after any number of denied outcomes, for \<open>intersection\<close> after any number
  of allowed ones, for \<open>exclusion\<close> after the other operand has passed. A run that
  delivers every outcome and in which a child failed returns allowed only from \<open>union\<close>,
  and only when an allowed outcome was received before the failing child's (which lost the
  race); \<open>intersection\<close> and \<open>exclusion\<close> never return allowed on such a run.
\<close>

theorem reducers_propagate_errors:
  assumes "K \<noteq> 0" and "j < length hs" and "is_error (hs ! j) e"
    and "jx < 2" and "is_error ([b, s] ! jx) ex"
  shows "(length pre < length hs \<and> (\<forall>i\<in>set pre. i < length hs \<and> union_pass (hs ! i)) \<longrightarrow>
        union_reducer K hs (map Recv pre @ Recv j # rest)
          = Returned (Some \<lparr>Allowed = False\<rparr>) (Some e))
    \<and> (length pre' < length hs \<and> (\<forall>i\<in>set pre'. i < length hs \<and> is_allowed (hs ! i)) \<longrightarrow>
        intersection K hs (map Recv pre' @ Recv j # rest)
          = Returned (Some \<lparr>Allowed = False\<rparr>) (Some e))
    \<and> (length prex < 2 \<and> (\<forall>i\<in>set prex. i < 2 \<and> exclusion_pass i b s) \<longrightarrow>
        exclusion K [b, s] (map Recv prex @ Recv jx # rest)
          = Returned (Some \<lparr>Allowed = False\<rparr>) (Some ex))
    \<and> (fair_run (length hs) evs \<and> is_allowed (union_reducer K hs evs) \<longrightarrow>
        (\<exists>before w after. received evs = before @ w # after \<and> is_allowed (hs ! w)
            \<and> j \<in> set after))
    \<and> (fair_run (length hs) evs \<longrightarrow> \<not> is_allowed (intersection K hs evs))
    \<and> (fair_run 2 evs2 \<longrightarrow> \<not> is_allowed (exclusion K [b, s] evs2))"
proof (intro conjI impI)
  from assms(3) obtain r where r: "hs ! j = Returned r (Some e)"
    by (auto simp: is_error_def split: exec.splits)
  {
    assume h: "length pre < length hs \<and> (\<forall>i\<in>set pre. i < length hs \<and> union_pass (hs ! i))"
    then obtain m where m: "length hs - length pre = Suc m"
      by (cases "length hs - length pre") auto
    from h have "union_reducer K hs (map Recv pre @ Recv j # rest)
        = union_loop K hs (length hs - length pre) (Recv j # rest)"
      by (intro union_first_decisive assms) simp_all
    with m r assms(1,2)
    show "union_reducer K hs (map Recv pre @ Recv j # rest)
        = Returned (Some \<lparr>Allowed = False\<rparr>) (Some e)"
      by simp
  }
  {
    assume h: "length pre' < length hs \<and> (\<forall>i\<in>set pre'. i < length hs \<and> is_allowed (hs ! i))"
    then obtain m where m: "length hs - length pre' = Suc m"
      by (cases "length hs - length pre'") auto
    from h have "intersection K hs (map Recv pre' @ Recv j # rest)
        = intersection_loop K hs (length hs - length pre') (Recv j # rest)"
      by (intro intersection_first_decisive assms) simp_all
    with m r assms(1,2)
    show "intersection K hs (map Recv pre' @ Recv j # rest)
        = Returned (Some \<lparr>Allowed = False\<rparr>) (Some e)"
      by simp
  }
  {
    assume h: "length prex < 2 \<and> (\<forall>i\<in>set prex. i < 2 \<and> exclusion_pass i b s)"
    then obtain m where m: "2 - length prex = Suc m"
      by (cases "2 - length prex") auto
    from h have eq: "exclusion K [b, s] (map Recv prex @ Recv jx # rest)
        = exclusion_loop b s (2 - length prex) (Recv jx # rest)"
      by (intro exclusion_first_decisive assms) simp_all
    from assms(4) have "jx = 0 \<or> jx = 1" by arith
    then show "exclusion K [b, s] (map Recv prex @ Recv jx # rest)
        = Returned (Some \<lparr>Allowed = False\<rparr>) (Some ex)"
    proof
      assume jx: "jx = 0"
      with assms(5) obtain rb where "b = Returned rb (Some ex)"
        by (auto simp: is_error_def split: exec.splits)
      with eq m jx show ?thesis by simp
    next
      assume jx: "jx = 1"
      with assms(5) obtain rs where "s = Returned rs (Some ex)"
        by (auto simp: is_error_def split: exec.splits)
      with eq m jx show ?thesis by simp
    qed
  }
  {
    assume "fair_run (length hs) evs \<and> is_allowed (union_reducer K hs evs)"
    then have "fair_run (length hs) evs" and "is_allowed (union_reducer K hs evs)"
      by simp_all
    from union_error_lost_race [OF assms(1) this assms(2,3)]
    show "\<exists>before w after. received evs = before @ w # after \<and> is_allowed (hs ! w)
            \<and> j \<in> set after" .
  }
  {
    assume "fair_run (length hs) evs"
    with assms(1,2,3) show "\<not> is_allowed (intersection K hs evs)"
      by (intro intersection_error_not_allowed) simp_all
  }
  {
    assume "fair_run 2 evs2"
    with assms(1,4,5) show "\<not> is_allowed (exclusion K [b, s] evs2)"
      by (intro exclusion_error_not_allowed) simp_all
  }
qed

theorem reducers_propagate_errors_witness:
  "(1 :: 32 word) \<noteq> 0
   \<and> is_error (Returned None (Some (Err ''read failed''))) (Err ''read failed'')
   \<and> fair_run 3 [Recv 1, Recv 0, Recv 2] \<and> fair_run 2 [Recv 0, Recv 1]
   \<and> union_reducer 1
        [Returned (Some \<lparr>Allowed = False\<rparr>) None, Returned (Some \<lparr>Allowed = True\<rparr>) None,
         Returned None (Some (Err ''read failed''))]
        [Recv 0, Recv 2, Recv 1]
       = Returned (Some \<lparr>Allowed = False\<rparr>) (Some (Err ''read failed''))
   \<and> intersection 1
        [Returned (Some \<lparr>Allowed = False\<rparr>) None, Returned (Some \<lparr>Allowed = True\<rparr>) None,
         Returned None (Some (Err ''read failed''))]
        [Recv 1, Recv 2, Recv 1]
       = Returned (Some \<lparr>Allowed = False\<rparr>) (Some (Err ''read failed''))
   \<and> exclusion 1
        [Returned (Some \<lparr>Allowed = True\<rparr>) None, Returned None (Some (Err ''read failed''))]
        [Recv 0, Recv 1, Recv 1]
       = Returned (Some \<lparr>Allowed = False\<rparr>) (Some (Err ''read failed''))
   \<and> is_allowed (union_reducer 1
        [Returned (Some \<lparr>Allowed = False\<rparr>) None, Returned (Some \<lparr>Allowed = True\<rparr>) None,
         Returned None (Some (Err ''read failed''))]
        [Recv 1, Recv 0, Recv 2])
   \<and> \<not> is_allowed (intersection 1
        [Returned (Some \<lparr>Allowed = False\<rparr>) None, Returned (Some \<lparr>Allowed = True\<rparr>) None,
         Returned None (Some (Err ''read failed''))]
        [Recv 1, Recv 0, Recv 2])
   \<and> \<not> is_allowed (exclusion 1
        [Returned (Some \<lparr>Allowed = True\<rparr>) None, Returned None (Some (Err ''read failed''))]
        [Recv 0, Recv 1])"
proof -
  let ?D = "Returned (Some \<lparr>Allowed = False\<rparr>) None"
  let ?A = "Returned (Some \<lparr>Allowed = True\<rparr>) None"
  let ?E = "Returned None (Some (Err ''read failed''))"
  have k: "(1 :: 32 word) \<noteq> 0" by simp
  have j: "2 < length [?D, ?A, ?E]" by simp
  have e: "is_error ([?D, ?A, ?E] ! 2) (Err ''read failed'')" by (simp add: is_error_def)
  have jx: "(1::nat) < 2" by simp
  have ex: "is_error ([?A, ?E] ! 1) (Err ''read failed'')" by (simp add: is_error_def)
  have f: "fair_run 3 [Recv 1, Recv 0, Recv 2]" "fair_run 2 [Recv 0, Recv 1]"
    by (simp_all add: fair_run_def)
  have p: "union_pass ?D" "is_allowed ?A" "exclusion_pass 0 ?A ?E"
    "is_error ?E (Err ''read failed'')"
    by (simp_all add: union_pass_def is_allowed_def exclusion_pass_def GetAllowed_def is_error_def)
  have u: "is_allowed (union_reducer 1 [?D, ?A, ?E] [Recv 1, Recv 0, Recv 2])"
    by (simp add: union_reducer_def is_allowed_def GetAllowed_def)
  from reducers_propagate_errors [OF k j e jx ex,
      of "[0]" "[Recv 1]" "[1]" "[0]" "[Recv 1, Recv 0, Recv 2]" "[Recv 0, Recv 1]"]
  show ?thesis using k f p u by (simp add: numeral_3_eq_3)
qed

section \<open>The depth limit\<close>

lemma DispatchCheck_depth_zero:
  "Depth req = 0 \<Longrightarrow> DispatchCheck c orc p ctx req = depth_exceeded"
  by (simp add: DispatchCheck.simps depth_exceeded_def)

lemma union_single_error:
  assumes "K \<noteq> 0"
  shows "union_reducer K [Returned r (Some e)] (Recv 0 # rest)
           = Returned (Some \<lparr>Allowed = False\<rparr>) (Some e)"
  using assms by (simp add: union_reducer_def)

lemma DispatchCheck_computed_step:
  assumes "Depth req \<noteq> 0" and "ctx_typesys ctx = Some typesys"
    and "GetRelation typesys (fst (SplitObject (tk_Object (TupleKey req)))) (tk_Relation (TupleKey req)) = Inr rel"
    and "Rewrite rel = Userset_ComputedUserset r"
  shows "DispatchCheck c orc p ctx req =
     copy_response (union_reducer (concurrencyLimit c)
       [copy_response (DispatchCheck c orc (0 # p) ctx
          \<lparr>StoreId = StoreId req, AuthorizationModelId = AuthorizationModelId req,
           TupleKey = NewTupleKey (tk_Object (TupleKey req)) r (tk_User (TupleKey req)),
           Depth = Depth req - 1\<rparr>)] (orc p))"
  using assms
  by (simp add: DispatchCheck.simps [of c orc p ctx req] checkRewrite.simps dispatch.simps)

lemma cycle_depth_exceeded:
  assumes ts: "ctx_typesys ctx = Some typesys"
    and rel: "GetRelation typesys (fst (SplitObject obj)) r = Inr rel"
             "Rewrite rel = Userset_ComputedUserset r"
    and K: "concurrencyLimit c \<noteq> 0"
  shows "unat (Depth req) = n \<Longrightarrow> tk_Object (TupleKey req) = obj \<Longrightarrow> tk_Relation (TupleKey req) = r
     \<Longrightarrow> (\<forall>k<n. \<exists>rest. orc (replicate k 0 @ p) = Recv 0 # rest)
     \<Longrightarrow> DispatchCheck c orc p ctx req = depth_exceeded"
proof (induction n arbitrary: req p)
  case 0
  then have "Depth req = 0" by (simp add: unat_eq_0)
  then show ?case by (rule DispatchCheck_depth_zero)
next
  case (Suc n)
  let ?sub = "\<lparr>StoreId = StoreId req, AuthorizationModelId = AuthorizationModelId req,
           TupleKey = NewTupleKey (tk_Object (TupleKey req)) r (tk_User (TupleKey req)),
           Depth = Depth req - 1\<rparr>"
  from Suc.prems(1) have nz: "Depth req \<noteq> 0" by auto
  then have d: "unat (Depth ?sub) = n" using Suc.prems(1) by (simp add: unat_minus_one)
  have sched: "\<forall>k<n. \<exists>rest. orc (replicate k 0 @ 0 # p) = Recv 0 # rest"
  proof (intro allI impI)
    fix k assume "k < n"
    then have "Suc k < Suc n" by simp
    with Suc.prems(4) obtain rest where "orc (replicate (Suc k) 0 @ p) = Recv 0 # rest" by blast
    then show "\<exists>rest. orc (replicate k 0 @ 0 # p) = Recv 0 # rest"
      by (simp add: replicate_app_Cons_same)
  qed
  have sub: "DispatchCheck c orc (0 # p) ctx ?sub = depth_exceeded"
    using d sched Suc.prems(2) by (intro Suc.IH) (simp_all add: NewTupleKey_def)
  from Suc.prems(4) obtain rest where here: "orc p = Recv 0 # rest" by force
  from rel Suc.prems(2,3) have
    "GetRelation typesys (fst (SplitObject (tk_Object (TupleKey req)))) (tk_Relation (TupleKey req)) = Inr rel"
    by simp
  from DispatchCheck_computed_step [OF nz ts this rel(2)] sub here K
  show ?case
    by (simp add: depth_exceeded_def copy_response_def union_single_error)
qed

lemma cycle_reaches_level:
  assumes ts: "ctx_typesys ctx = Some typesys"
    and rel: "GetRelation typesys (fst (SplitObject obj)) r = Inr rel"
             "Rewrite rel = Userset_ComputedUserset r"
    and K: "concurrencyLimit c \<noteq> 0"
  shows "k < unat (Depth req) \<Longrightarrow> tk_Object (TupleKey req) = obj \<Longrightarrow> tk_Relation (TupleKey req) = r
     \<Longrightarrow> (\<forall>i<k. \<exists>rest. orc (replicate i 0 @ p) = Recv 0 # rest)
     \<Longrightarrow> orc (replicate k 0 @ p) = []
     \<Longrightarrow> DispatchCheck c orc p ctx req = Blocked"
proof (induction k arbitrary: req p)
  case 0
  then have nz: "Depth req \<noteq> 0" by auto
  from rel 0 have
    "GetRelation typesys (fst (SplitObject (tk_Object (TupleKey req)))) (tk_Relation (TupleKey req)) = Inr rel"
    by simp
  from DispatchCheck_computed_step [OF nz ts this rel(2)] 0
  show ?case by (simp add: union_reducer_def copy_response_def)
next
  case (Suc k)
  let ?sub = "\<lparr>StoreId = StoreId req, AuthorizationModelId = AuthorizationModelId req,
           TupleKey = NewTupleKey (tk_Object (TupleKey req)) r (tk_User (TupleKey req)),
           Depth = Depth req - 1\<rparr>"
  from Suc.prems(1) have nz: "Depth req \<noteq> 0" by auto
  then have d: "k < unat (Depth ?sub)" using Suc.prems(1) by (simp add: unat_minus_one)
  have sched: "\<forall>i<k. \<exists>rest. orc (replicate i 0 @ 0 # p) = Recv 0 # rest"
  proof (intro allI impI)
    fix i assume "i < k"
    then have "Suc i < Suc k" by simp
    with Suc.prems(4) obtain rest where "orc (replicate (Suc i) 0 @ p) = Recv 0 # rest" by blast
    then show "\<exists>rest. orc (replicate i 0 @ 0 # p) = Recv 0 # rest"
      by (simp add: replicate_app_Cons_same)
  qed
  from Suc.prems(5) have last: "orc (replicate k 0 @ 0 # p) = []"
    by (simp add: replicate_app_Cons_same)
  have sub: "DispatchCheck c orc (0 # p) ctx ?sub = Blocked"
    using d sched last Suc.prems(2) by (intro Suc.IH) (simp_all add: NewTupleKey_def)
  from Suc.prems(4) obtain rest where here: "orc p = Recv 0 # rest" by force
  from rel Suc.prems(2,3) have
    "GetRelation typesys (fst (SplitObject (tk_Object (TupleKey req)))) (tk_Relation (TupleKey req)) = Inr rel"
    by simp
  from DispatchCheck_computed_step [OF nz ts this rel(2)] sub here K
  show ?case
    by (simp add: copy_response_def union_reducer_def)
qed

lemma union_first_error:
  assumes "K \<noteq> 0" and "j < length hs" and "hs ! j = Returned r (Some e)"
  shows "union_reducer K hs (Recv j # rest) = Returned (Some \<lparr>Allowed = False\<rparr>) (Some e)"
proof -
  from assms(2) obtain m where "length hs = Suc m" by (cases "length hs") auto
  with assms show ?thesis by (simp add: union_reducer_def)
qed

lemma dispatch_depth_zero:
  "Depth req = 0 \<Longrightarrow> dispatch c orc p ctx req = depth_exceeded"
  by (simp add: dispatch.simps DispatchCheck.simps copy_response_def depth_exceeded_def)

lemma fn2_depth_one:
  assumes "Depth req = 1" and "concurrencyLimit c \<noteq> 0"
    and "ReadUsersetTuples (ds c) (StoreId req) (TupleKey req) = Inr iter"
    and "next_loop (items iter) [] = (Inr ts, rest)" and "j < length ts"
    and "orc p = Recv j # evs"
  shows "fst (checkDirect_fn2 c orc p ctx req)
           = Returned (Some \<lparr>Allowed = False\<rparr>) (Some (Err ''resolution depth exceeded''))"
proof -
  define hs where "hs = map (\<lambda>i. dispatch c orc (i # p) ctx
       \<lparr>StoreId = StoreId req, AuthorizationModelId = AuthorizationModelId req,
        TupleKey = NewTupleKey (fst (SplitObjectRelation (tk_User (ts ! i))))
                     (snd (SplitObjectRelation (tk_User (ts ! i)))) (tk_User (TupleKey req)),
        Depth = Depth req - 1\<rparr>) [0..<length ts]"
  from assms(5) have len: "j < length hs" "0 < length hs" by (auto simp: hs_def)
  from assms(1,5) have "hs ! j = depth_exceeded"
    by (simp add: hs_def dispatch_depth_zero)
  then have "hs ! j = Returned None (Some (Err ''resolution depth exceeded''))"
    by (simp add: depth_exceeded_def)
  from union_first_error [OF assms(2) len(1) this]
  have "union_reducer (concurrencyLimit c) hs (orc p)
      = Returned (Some \<lparr>Allowed = False\<rparr>) (Some (Err ''resolution depth exceeded''))"
    by (simp add: assms(6))
  moreover from assms(3,4) len(2)
  have "fst (checkDirect_fn2 c orc p ctx req) = union_reducer (concurrencyLimit c) hs (orc p)"
    by (simp add: checkDirect_fn2.simps [of c orc p ctx req] Let_def hs_def)
  ultimately show ?thesis by simp
qed

lemma ttu_depth_one:
  assumes "Depth req = 1" and "concurrencyLimit c \<noteq> 0" and "ctx_typesys ctx = Some typesys"
    and "Read (ds c) (StoreId req) (NewTupleKey (tk_Object (TupleKey req)) tr []) = Inr iter"
    and "next_loop (items iter) [] = (Inr ts, rest)" and "j < length ts"
    and "orc p = Recv j # evs"
  shows "checkRewrite c orc p ctx req (Userset_TupleToUserset tr cr)
           = Inr (Returned (Some \<lparr>Allowed = False\<rparr>) (Some (Err ''resolution depth exceeded'')))"
proof -
  define hs where "hs = map (\<lambda>i. dispatch c orc (i # p) (ctx\<lparr>ctx_typesys := Some typesys\<rparr>)
       \<lparr>StoreId = StoreId req, AuthorizationModelId = AuthorizationModelId req,
        TupleKey = \<lparr>tk_Object = fst (SplitObjectRelation (tk_User (ts ! i))),
                    tk_Relation = cr, tk_User = tk_User (TupleKey req)\<rparr>,
        Depth = Depth req - 1\<rparr>) [0..<length ts]"
  from assms(6) have len: "j < length hs" "0 < length hs" by (auto simp: hs_def)
  from assms(1,6) have "hs ! j = depth_exceeded"
    by (simp add: hs_def dispatch_depth_zero)
  then have "hs ! j = Returned None (Some (Err ''resolution depth exceeded''))"
    by (simp add: depth_exceeded_def)
  from union_first_error [OF assms(2) len(1) this]
  have "union_reducer (concurrencyLimit c) hs (orc p)
      = Returned (Some \<lparr>Allowed = False\<rparr>) (Some (Err ''resolution depth exceeded''))"
    by (simp add: assms(7))
  moreover from assms(3,4,5) len(2)
  have "checkRewrite c orc p ctx req (Userset_TupleToUserset tr cr)
      = Inr (union_reducer (concurrencyLimit c) hs (orc p))"
    by (simp add: checkRewrite.simps [of c orc p ctx req] checkTTU.simps [of c orc p ctx req]
        Let_def hs_def)
  ultimately show ?thesis by simp
qed

text \<open>
  Claim C2. \<open>DispatchCheck\<close> at depth 0 fails with \<open>resolution depth exceeded\<close>
  before it looks at the context, the model or the tuples. Every dispatched sub-request
  carries the depth minus one: the \<open>ComputedUserset\<close> case dispatches at
  \<open>Depth - 1\<close>, and at depth 1 the sub-checks of the userset expansion and of the
  tuple-to-userset expansion already fail with that error. For a relation that is a
  \<open>ComputedUserset\<close> of itself, a check at depth \<open>d\<close> returns
  \<open>resolution depth exceeded\<close> when the reducers of the nesting levels below \<open>d\<close>
  deliver their single outcome, whatever deeper levels would do; and it needs every one of
  these levels: when the reducer of a level below \<open>d\<close> never receives, the check never
  returns.
\<close>

theorem depth_limit:
  assumes "concurrencyLimit c \<noteq> 0" and "ctx_typesys ctx = Some typesys"
    and "GetRelation typesys (fst (SplitObject (tk_Object (TupleKey reqc))))
           (tk_Relation (TupleKey reqc)) = Inr rel"
    and "Rewrite rel = Userset_ComputedUserset (tk_Relation (TupleKey reqc))"
  shows "(Depth req0 = 0 \<longrightarrow>
            DispatchCheck c orc p ctx' req0 = Returned None (Some (Err ''resolution depth exceeded'')))
    \<and> checkRewrite c orc p ctx' req (Userset_ComputedUserset r) =
         Inr (dispatch c orc p ctx'
           \<lparr>StoreId = StoreId req, AuthorizationModelId = AuthorizationModelId req,
            TupleKey = NewTupleKey (tk_Object (TupleKey req)) r (tk_User (TupleKey req)),
            Depth = Depth req - 1\<rparr>)
    \<and> (Depth req1 = 1 \<and> ReadUsersetTuples (ds c) (StoreId req1) (TupleKey req1) = Inr iter
          \<and> next_loop (items iter) [] = (Inr ts, rest) \<and> j < length ts \<and> orc p = Recv j # evs \<longrightarrow>
        fst (checkDirect_fn2 c orc p ctx req1)
          = Returned (Some \<lparr>Allowed = False\<rparr>) (Some (Err ''resolution depth exceeded'')))
    \<and> (Depth req1 = 1
          \<and> Read (ds c) (StoreId req1) (NewTupleKey (tk_Object (TupleKey req1)) tr []) = Inr iter'
          \<and> next_loop (items iter') [] = (Inr ts', rest') \<and> j' < length ts'
          \<and> orc p = Recv j' # evs' \<longrightarrow>
        checkRewrite c orc p ctx req1 (Userset_TupleToUserset tr cr)
          = Inr (Returned (Some \<lparr>Allowed = False\<rparr>) (Some (Err ''resolution depth exceeded''))))
    \<and> ((\<forall>k<unat (Depth reqc). \<exists>more. orc (replicate k 0 @ p) = Recv 0 # more) \<longrightarrow>
        DispatchCheck c orc p ctx reqc = Returned None (Some (Err ''resolution depth exceeded'')))
    \<and> (l < unat (Depth reqc) \<and> (\<forall>k<l. \<exists>more. orc' (replicate k 0 @ p) = Recv 0 # more)
          \<and> orc' (replicate l 0 @ p) = [] \<longrightarrow>
        DispatchCheck c orc' p ctx reqc = Blocked)"
proof (intro conjI impI)
  assume "Depth req0 = 0"
  then show "DispatchCheck c orc p ctx' req0 = Returned None (Some (Err ''resolution depth exceeded''))"
    using DispatchCheck_depth_zero by (simp add: depth_exceeded_def)
next
  show "checkRewrite c orc p ctx' req (Userset_ComputedUserset r) =
         Inr (dispatch c orc p ctx'
           \<lparr>StoreId = StoreId req, AuthorizationModelId = AuthorizationModelId req,
            TupleKey = NewTupleKey (tk_Object (TupleKey req)) r (tk_User (TupleKey req)),
            Depth = Depth req - 1\<rparr>)"
    by (simp add: checkRewrite.simps)
next
  assume "Depth req1 = 1 \<and> ReadUsersetTuples (ds c) (StoreId req1) (TupleKey req1) = Inr iter
          \<and> next_loop (items iter) [] = (Inr ts, rest) \<and> j < length ts \<and> orc p = Recv j # evs"
  with assms(1) show "fst (checkDirect_fn2 c orc p ctx req1)
          = Returned (Some \<lparr>Allowed = False\<rparr>) (Some (Err ''resolution depth exceeded''))"
    by (intro fn2_depth_one [where iter = iter and ts = ts and rest = rest and j = j and evs = evs])
      simp_all
next
  assume "Depth req1 = 1
          \<and> Read (ds c) (StoreId req1) (NewTupleKey (tk_Object (TupleKey req1)) tr []) = Inr iter'
          \<and> next_loop (items iter') [] = (Inr ts', rest') \<and> j' < length ts'
          \<and> orc p = Recv j' # evs'"
  with assms(1,2) show "checkRewrite c orc p ctx req1 (Userset_TupleToUserset tr cr)
          = Inr (Returned (Some \<lparr>Allowed = False\<rparr>) (Some (Err ''resolution depth exceeded'')))"
    by (intro ttu_depth_one [where iter = iter' and ts = ts' and rest = rest' and j = j'
          and evs = evs' and typesys = typesys])
      simp_all
next
  assume "\<forall>k<unat (Depth reqc). \<exists>more. orc (replicate k 0 @ p) = Recv 0 # more"
  with cycle_depth_exceeded [OF assms(2,3,4,1), of reqc "unat (Depth reqc)" orc p]
  show "DispatchCheck c orc p ctx reqc = Returned None (Some (Err ''resolution depth exceeded''))"
    by (simp add: depth_exceeded_def)
next
  assume "l < unat (Depth reqc) \<and> (\<forall>k<l. \<exists>more. orc' (replicate k 0 @ p) = Recv 0 # more)
          \<and> orc' (replicate l 0 @ p) = []"
  with cycle_reaches_level [OF assms(2,3,4,1), of l reqc orc' p]
  show "DispatchCheck c orc' p ctx reqc = Blocked" by simp
qed

theorem depth_limit_witness:
  "concurrencyLimit example_checker \<noteq> 0
   \<and> GetRelation example_model ''document'' ''loop''
       = Inr \<lparr>Rewrite = Userset_ComputedUserset ''loop'', DirectlyRelatedUserTypes = []\<rparr>
   \<and> DispatchCheck example_checker (in_order 1) [] example_ctx
        (check_request ''document:1'' ''viewer'' ''user:jon'' 0)
       = Returned None (Some (Err ''resolution depth exceeded''))
   \<and> fst (checkDirect_fn2 example_checker (in_order 1) [] example_ctx
        (check_request ''document:1'' ''viewer'' ''user:andres'' 1))
       = Returned (Some \<lparr>Allowed = False\<rparr>) (Some (Err ''resolution depth exceeded''))
   \<and> checkRewrite example_checker (in_order 1) [] example_ctx
        (check_request ''document:1'' ''viewer'' ''user:andres'' 1)
        (Userset_TupleToUserset ''parent'' ''viewer'')
       = Inr (Returned (Some \<lparr>Allowed = False\<rparr>) (Some (Err ''resolution depth exceeded'')))
   \<and> DispatchCheck example_checker (in_order 1) [] example_ctx
        (check_request ''document:1'' ''loop'' ''user:jon'' 3)
       = Returned None (Some (Err ''resolution depth exceeded''))
   \<and> DispatchCheck example_checker (\<lambda>p. if length p < 2 then [Recv 0] else []) [] example_ctx
        (check_request ''document:1'' ''loop'' ''user:jon'' 3)
       = Blocked"
proof -
  let ?reqc = "check_request ''document:1'' ''loop'' ''user:jon'' 3"
  let ?req1 = "check_request ''document:1'' ''viewer'' ''user:andres'' 1"
  let ?rel = "\<lparr>Rewrite = Userset_ComputedUserset ''loop'', DirectlyRelatedUserTypes = []\<rparr>"
  let ?it1 = "\<lparr>items = [Inr (NewTupleKey ''document:1'' ''viewer'' ''group:eng#member'')],
                stopped = False\<rparr>"
  let ?it2 = "\<lparr>items = [Inr (NewTupleKey ''document:1'' ''parent'' ''folder:x'')],
                stopped = False\<rparr>"
  let ?late = "\<lambda>p :: nat list. if length p < 2 then [Recv 0] else []"
  have k: "concurrencyLimit example_checker \<noteq> 0" by (simp add: example_checker_def)
  have ts: "ctx_typesys example_ctx = Some example_model" by (simp add: example_ctx_def)
  have g: "GetRelation example_model ''document'' ''loop'' = Inr ?rel"
    by (simp add: GetRelation_def example_model_def)
  have so: "fst (SplitObject ''document:1'') = ''document''"
    by (simp add: SplitObject_def split_at_def)
  have rel: "GetRelation example_model (fst (SplitObject (tk_Object (TupleKey ?reqc))))
           (tk_Relation (TupleKey ?reqc)) = Inr ?rel"
    by (simp add: check_request_def NewTupleKey_def so g)
  have rw: "Rewrite ?rel = Userset_ComputedUserset (tk_Relation (TupleKey ?reqc))"
    by (simp add: check_request_def NewTupleKey_def)
  have r1: "ReadUsersetTuples (ds example_checker) (StoreId ?req1) (TupleKey ?req1) = Inr ?it1"
    by (simp add: example_checker_def tuples_datastore_def example_tuples_def check_request_def
        NewTupleKey_def)
  have r2: "Read (ds example_checker) (StoreId ?req1)
        (NewTupleKey (tk_Object (TupleKey ?req1)) ''parent'' []) = Inr ?it2"
    by (simp add: example_checker_def tuples_datastore_def example_tuples_def check_request_def
        NewTupleKey_def)
  have d: "unat (Depth ?reqc) = 3" "Depth ?req1 = 1"
    "Depth (check_request ''document:1'' ''viewer'' ''user:jon'' 0) = 0"
    by (simp_all add: check_request_def)
  have o1: "\<forall>k<3. \<exists>more. in_order 1 (replicate k 0 @ []) = Recv 0 # more"
    by (simp add: in_order_def)
  have o2: "\<forall>k<2. \<exists>more. ?late (replicate k 0 @ []) = Recv 0 # more" by simp
  have o3: "?late (replicate 2 0 @ []) = []" by simp
  have o4: "in_order 1 [] = Recv 0 # []" by (simp add: in_order_def)
  from depth_limit [OF k ts rel rw,
      where ?req0.0 = "check_request ''document:1'' ''viewer'' ''user:jon'' 0"
        and orc = "in_order 1" and p = "[]" and ctx' = example_ctx
        and ?req1.0 = ?req1 and iter = ?it1
        and ts = "[NewTupleKey ''document:1'' ''viewer'' ''group:eng#member'']" and rest = "[]"
        and j = 0 and evs = "[]" and tr = "''parent''" and iter' = ?it2
        and ts' = "[NewTupleKey ''document:1'' ''parent'' ''folder:x'']" and rest' = "[]"
        and j' = 0 and evs' = "[]" and cr = "''viewer''" and l = 2 and orc' = ?late]
  show ?thesis using k g r1 r2 d o1 o2 o3 o4 by simp
qed

section \<open>Where a panic of the evaluator can come from\<close>

lemma union_loop_panicked:
  "union_loop K hs k evs = Panicked m \<Longrightarrow> Panicked m \<in> set hs"
proof (induction K hs k evs rule: union_loop.induct)
  case (4 K hs n j evs)
  then show ?case
    by (cases "hs ! j") (auto split: if_splits intro: nth_mem simp: not_le dest: sym)
qed simp_all

lemma intersection_loop_panicked:
  "intersection_loop K hs k evs = Panicked m \<Longrightarrow> Panicked m \<in> set hs"
proof (induction K hs k evs rule: intersection_loop.induct)
  case (4 K hs n j evs)
  then show ?case
    by (cases "hs ! j") (auto split: if_splits intro: nth_mem simp: not_le dest: sym)
qed simp_all

lemma exclusion_loop_panicked:
  "exclusion_loop b s k evs = Panicked m \<Longrightarrow> m = nil_dereference \<or> b = Panicked m \<or> s = Panicked m"
proof (induction b s k evs rule: exclusion_loop.induct)
  case (4 b s n j evs)
  then show ?case
    by (auto split: if_splits exec.splits option.splits)
qed simp_all

lemma union_reducer_free:
  "\<forall>h\<in>set hs. h \<noteq> Panicked m \<Longrightarrow> union_reducer K hs evs \<noteq> Panicked m"
  unfolding union_reducer_def using union_loop_panicked by blast

lemma intersection_free:
  "\<forall>h\<in>set hs. h \<noteq> Panicked m \<Longrightarrow> intersection K hs evs \<noteq> Panicked m"
  unfolding intersection_def using intersection_loop_panicked by blast

lemma exclusion_two_free:
  assumes "m \<noteq> nil_dereference" and "b \<noteq> Panicked m" and "s \<noteq> Panicked m"
  shows "exclusion K [b, s] evs \<noteq> Panicked m"
proof
  assume p: "exclusion K [b, s] evs = Panicked m"
  then have "K \<noteq> 0" by (auto simp: exclusion_def split: if_splits)
  with p have "exclusion_loop b s 2 evs = Panicked m" by (simp add: exclusion_two)
  from exclusion_loop_panicked [OF this] assms show False by simp
qed

lemma copy_response_free:
  "m \<noteq> nil_dereference \<Longrightarrow> x \<noteq> Panicked m \<Longrightarrow> copy_response x \<noteq> Panicked m"
  by (auto simp: copy_response_def split: exec.splits option.splits if_splits)

lemma built_Inl: "built xs = Inl m \<Longrightarrow> Inl m \<in> set xs"
  by (induction xs rule: built.induct) (auto split: sum.splits)

lemma built_Inr: "built xs = Inr hs \<Longrightarrow> h \<in> set hs \<Longrightarrow> Inr h \<in> set xs"
  by (induction xs arbitrary: hs rule: built.induct) (auto split: sum.splits)

lemma built_length: "built xs = Inr hs \<Longrightarrow> length hs = length xs"
  by (induction xs arbitrary: hs rule: built.induct) (auto split: sum.splits)

lemma checkSetOperation_union_free:
  assumes "\<forall>r\<in>set children. free_of m r"
  shows "free_of m (checkSetOperation c sched unionSetOperation union_reducer children)"
proof (cases "built children")
  case (Inl m')
  with built_Inl [OF Inl] assms show ?thesis
    by (auto simp: checkSetOperation_def free_of_def)
next
  case (Inr hs)
  have "\<forall>h\<in>set hs. h \<noteq> Panicked m"
    using built_Inr [OF Inr] assms by (auto simp: free_of_def)
  from union_reducer_free [OF this] Inr show ?thesis
    by (simp add: checkSetOperation_def free_of_def)
qed

lemma checkSetOperation_intersection_free:
  assumes "\<forall>r\<in>set children. free_of m r"
  shows "free_of m (checkSetOperation c sched intersectionSetOperation intersection children)"
proof (cases "built children")
  case (Inl m')
  with built_Inl [OF Inl] assms show ?thesis
    by (auto simp: checkSetOperation_def free_of_def)
next
  case (Inr hs)
  have "\<forall>h\<in>set hs. h \<noteq> Panicked m"
    using built_Inr [OF Inr] assms by (auto simp: free_of_def)
  from intersection_free [OF this] Inr show ?thesis
    by (simp add: checkSetOperation_def free_of_def)
qed

lemma checkSetOperation_exclusion_free:
  assumes "m \<noteq> nil_dereference" and "free_of m a" and "free_of m b"
  shows "free_of m (checkSetOperation c sched exclusionSetOperation exclusion [a, b])"
proof (cases a)
  case (Inl ma)
  with assms show ?thesis by (simp add: checkSetOperation_def free_of_def)
next
  case ha: (Inr ha)
  show ?thesis
  proof (cases b)
    case (Inl mb)
    with ha assms show ?thesis by (simp add: checkSetOperation_def free_of_def)
  next
    case hb: (Inr hb)
    from assms ha hb have "ha \<noteq> Panicked m" "hb \<noteq> Panicked m" by (simp_all add: free_of_def)
    from exclusion_two_free [OF assms(1) this] ha hb show ?thesis
      by (simp add: checkSetOperation_def free_of_def)
  qed
qed

lemma exclusion_panic_distinct:
  "exclusion_panic n \<noteq> nil_dereference"
  "exclusion_panic n \<noteq> ''typesystem missing in context''"
  "exclusion_panic n \<noteq> ''unexpected userset rewrite encountere''"
  by (simp_all add: exclusion_panic_def nil_dereference_def)

lemma set_operation_panic_distinct:
  "set_operation_panic n \<noteq> nil_dereference"
  "set_operation_panic n \<noteq> ''typesystem missing in context''"
  "set_operation_panic n \<noteq> ''unexpected userset rewrite encountere''"
  by (simp_all add: set_operation_panic_def nil_dereference_def)

lemma evaluator_panics:
  assumes nil: "m \<noteq> nil_dereference" and tsm: "m \<noteq> ''typesystem missing in context''"
    and un: "m \<noteq> ''unexpected userset rewrite encountere''"
  shows "DispatchCheck c orc p ctx req \<noteq> Panicked m"
    and "dispatch c orc p ctx req \<noteq> Panicked m"
    and "free_of m (checkRewrite c orc p ctx req rw)"
    and "checkDirect c orc p ctx req \<noteq> Panicked m"
    and "fst (checkDirect_fn2 c orc p ctx req) \<noteq> Panicked m"
    and "free_of m (map_sum id fst (checkTTU c orc p ctx req tr cr))"
proof (induction c orc p ctx req and c orc p ctx req and c orc p ctx req rw
    and c orc p ctx req and c orc p ctx req and c orc p ctx req tr cr
    rule: DispatchCheck_dispatch_checkRewrite_checkDirect_checkDirect_fn2_checkTTU.induct)
  case (1 c orc p ctx req)
  show ?case
  proof (cases "Depth req = 0")
    case True
    then show ?thesis by (simp add: DispatchCheck.simps)
  next
    case nz: False
    show ?thesis
    proof (cases "ctx_typesys ctx")
      case None
      with nz tsm show ?thesis by (simp add: DispatchCheck.simps)
    next
      case (Some typesys)
      show ?thesis
      proof (cases "GetRelation typesys (fst (SplitObject (tk_Object (TupleKey req))))
                      (tk_Relation (TupleKey req))")
        case (Inl e)
        with nz Some show ?thesis by (simp add: DispatchCheck.simps)
      next
        case (Inr rel)
        from "1.IH" [OF nz Some refl refl refl Inr]
        have good: "free_of m (checkRewrite c orc (0 # p) ctx req (Rewrite rel))" .
        show ?thesis
        proof (cases "checkRewrite c orc (0 # p) ctx req (Rewrite rel)")
          case (Inl m')
          with good have "m' \<noteq> m" by (auto simp: free_of_def)
          with nz Some Inr Inl show ?thesis by (simp add: DispatchCheck.simps)
        next
          case h: (Inr h)
          with good have "\<forall>x\<in>set [h]. x \<noteq> Panicked m" by (simp add: free_of_def)
          from copy_response_free [OF nil union_reducer_free [OF this]] nz Some Inr h
          show ?thesis by (simp add: DispatchCheck.simps)
        qed
      qed
    qed
  qed
next
  case (2 c orc p ctx req)
  from copy_response_free [OF nil "2.IH"] show ?case by (simp add: dispatch.simps)
next
  case (3 c orc p ctx req rewrite)
  show ?case
  proof (cases rewrite)
    case Userset_This
    with "3.IH"(1) show ?thesis by (simp add: checkRewrite.simps free_of_def)
  next
    case (Userset_ComputedUserset r)
    with "3.IH"(2) show ?thesis by (simp add: checkRewrite.simps free_of_def)
  next
    case (Userset_TupleToUserset tr cr)
    with "3.IH"(3) show ?thesis by (simp add: checkRewrite.simps id_def)
  next
    case (Userset_Union children)
    with "3.IH"(4)
    have "\<forall>r\<in>set (map (\<lambda>i. checkRewrite c orc (i # p) ctx req (children ! i)) [0..<length children]).
            free_of m r"
      by auto
    from checkSetOperation_union_free [OF this] Userset_Union show ?thesis
      by (simp add: checkRewrite.simps)
  next
    case (Userset_Intersection children)
    with "3.IH"(5)
    have "\<forall>r\<in>set (map (\<lambda>i. checkRewrite c orc (i # p) ctx req (children ! i)) [0..<length children]).
            free_of m r"
      by auto
    from checkSetOperation_intersection_free [OF this] Userset_Intersection show ?thesis
      by (simp add: checkRewrite.simps)
  next
    case (Userset_Difference base subtract)
    with "3.IH"(6,7) have "free_of m (checkRewrite c orc (0 # p) ctx req base)"
      and "free_of m (checkRewrite c orc (1 # p) ctx req subtract)" by simp_all
    from checkSetOperation_exclusion_free [OF nil this] Userset_Difference show ?thesis
      by (simp add: checkRewrite.simps)
  next
    case Userset_unset
    with un show ?thesis by (auto simp: checkRewrite.simps free_of_def)
  qed
next
  case (4 c orc p ctx req)
  have "checkDirect_fn1 c req \<noteq> Panicked m"
    by (auto simp: checkDirect_fn1_def split: prod.splits option.splits)
  with "4.IH" have "\<forall>h\<in>set [checkDirect_fn1 c req, fst (checkDirect_fn2 c orc (1 # p) ctx req)].
      h \<noteq> Panicked m" by simp
  from union_reducer_free [OF this] show ?case by (simp add: checkDirect.simps)
next
  case (5 c orc p ctx req)
  show ?case
  proof (cases "ReadUsersetTuples (ds c) (StoreId req) (TupleKey req)")
    case (Inl e)
    then show ?thesis by (simp add: checkDirect_fn2.simps)
  next
    case (Inr iter)
    obtain res rest where nl: "next_loop (items iter) [] = (res, rest)" by force
    show ?thesis
    proof (cases res)
      case (Inl e)
      with Inr nl show ?thesis by (simp add: checkDirect_fn2.simps)
    next
      case ts: (Inr ts)
      let ?hs = "map (\<lambda>i. dispatch c orc (i # p) ctx
                   \<lparr>StoreId = StoreId req, AuthorizationModelId = AuthorizationModelId req,
                    TupleKey = NewTupleKey (fst (SplitObjectRelation (tk_User (ts ! i))))
                                 (snd (SplitObjectRelation (tk_User (ts ! i))))
                                 (tk_User (TupleKey req)),
                    Depth = Depth req - 1\<rparr>) [0..<length ts]"
      from "5.IH" [OF Inr nl [symmetric] ts] have "\<forall>h\<in>set ?hs. h \<noteq> Panicked m" by auto
      from union_reducer_free [OF this] Inr nl ts show ?thesis
        by (simp add: checkDirect_fn2.simps Let_def)
    qed
  qed
next
  case (6 c orc p parentctx req tuplesetRelation computedRelation)
  show ?case
  proof (cases "ctx_typesys parentctx")
    case None
    with tsm show ?thesis by (auto simp: checkTTU.simps free_of_def)
  next
    case (Some typesys)
    show ?thesis
    proof (cases "Read (ds c) (StoreId req)
                    (NewTupleKey (tk_Object (TupleKey req)) tuplesetRelation [])")
      case (Inl e)
      with Some show ?thesis by (simp add: checkTTU.simps free_of_def)
    next
      case (Inr iter)
      obtain res rest where nl: "next_loop (items iter) [] = (res, rest)" by force
      show ?thesis
      proof (cases res)
        case (Inl e)
        with Some Inr nl show ?thesis by (simp add: checkTTU.simps free_of_def)
      next
        case ts: (Inr ts)
        let ?hs = "map (\<lambda>i. dispatch c orc (i # p) (parentctx\<lparr>ctx_typesys := Some typesys\<rparr>)
                     \<lparr>StoreId = StoreId req, AuthorizationModelId = AuthorizationModelId req,
                      TupleKey = \<lparr>tk_Object = fst (SplitObjectRelation (tk_User (ts ! i))),
                                  tk_Relation = computedRelation,
                                  tk_User = tk_User (TupleKey req)\<rparr>,
                      Depth = Depth req - 1\<rparr>) [0..<length ts]"
        from "6.IH" [OF Some Inr nl [symmetric] ts] have "\<forall>h\<in>set ?hs. h \<noteq> Panicked m" by auto
        from union_reducer_free [OF this] Some Inr nl ts show ?thesis
          by (simp add: checkTTU.simps Let_def free_of_def)
      qed
    qed
  qed
qed

section \<open>Empty reducers, and the exclusion panic\<close>

text \<open>
  Claim C9. For every concurrency limit and every schedule (cancelled or not), \<open>union\<close>
  over no handlers returns \<open>Allowed = false\<close> without an error and \<open>intersection\<close>
  over no handlers returns \<open>Allowed = true\<close> without an error. Accordingly the
  userset expansion of \<open>checkDirect\<close> and the handler of \<open>checkTTU\<close> return denied
  without an error when their read succeeds and yields no tuple.
\<close>

theorem empty_reducers_and_expansions:
  "union_reducer K [] evs = Returned (Some \<lparr>Allowed = False\<rparr>) None
   \<and> intersection K [] evs = Returned (Some \<lparr>Allowed = True\<rparr>) None
   \<and> (ReadUsersetTuples (ds c) (StoreId req) (TupleKey req) = Inr iter
        \<and> next_loop (items iter) [] = (Inr [], rest) \<longrightarrow>
      fst (checkDirect_fn2 c orc p ctx req) = Returned (Some \<lparr>Allowed = False\<rparr>) None)
   \<and> (ctx_typesys ctx = Some typesys
        \<and> Read (ds c) (StoreId req) (NewTupleKey (tk_Object (TupleKey req)) tr []) = Inr iter'
        \<and> next_loop (items iter') [] = (Inr [], rest') \<longrightarrow>
      checkRewrite c orc p ctx req (Userset_TupleToUserset tr cr)
        = Inr (Returned (Some \<lparr>Allowed = False\<rparr>) None))"
proof (intro conjI impI)
  show "union_reducer K [] evs = Returned (Some \<lparr>Allowed = False\<rparr>) None"
    by (simp add: union_reducer_def)
  show "intersection K [] evs = Returned (Some \<lparr>Allowed = True\<rparr>) None"
    by (simp add: intersection_def)
next
  assume "ReadUsersetTuples (ds c) (StoreId req) (TupleKey req) = Inr iter
        \<and> next_loop (items iter) [] = (Inr [], rest)"
  then show "fst (checkDirect_fn2 c orc p ctx req) = Returned (Some \<lparr>Allowed = False\<rparr>) None"
    by (simp add: checkDirect_fn2.simps)
next
  assume "ctx_typesys ctx = Some typesys
        \<and> Read (ds c) (StoreId req) (NewTupleKey (tk_Object (TupleKey req)) tr []) = Inr iter'
        \<and> next_loop (items iter') [] = (Inr [], rest')"
  then show "checkRewrite c orc p ctx req (Userset_TupleToUserset tr cr)
        = Inr (Returned (Some \<lparr>Allowed = False\<rparr>) None)"
    by (simp add: checkRewrite.simps checkTTU.simps)
qed

theorem empty_reducers_and_expansions_witness:
  "ReadUsersetTuples (ds example_checker) ''store'' (NewTupleKey ''document:2'' ''viewer'' ''user:jon'')
     = Inr \<lparr>items = [], stopped = False\<rparr>
   \<and> Read (ds example_checker) ''store'' (NewTupleKey ''document:2'' ''parent'' [])
     = Inr \<lparr>items = [], stopped = False\<rparr>
   \<and> next_loop [] [] = (Inr [], [])
   \<and> fst (checkDirect_fn2 example_checker (in_order 1) [] example_ctx
            (check_request ''document:2'' ''viewer'' ''user:jon'' 25))
       = Returned (Some \<lparr>Allowed = False\<rparr>) None
   \<and> checkRewrite example_checker (in_order 1) [] example_ctx
        (check_request ''document:2'' ''viewer'' ''user:jon'' 25)
        (Userset_TupleToUserset ''parent'' ''viewer'')
       = Inr (Returned (Some \<lparr>Allowed = False\<rparr>) None)"
proof -
  let ?req = "check_request ''document:2'' ''viewer'' ''user:jon'' 25"
  let ?it = "\<lparr>items = [], stopped = False\<rparr>"
  have r1: "ReadUsersetTuples (ds example_checker) (StoreId ?req) (TupleKey ?req) = Inr ?it"
    by (simp add: example_checker_def tuples_datastore_def example_tuples_def check_request_def
        NewTupleKey_def)
  have r2: "Read (ds example_checker) (StoreId ?req)
        (NewTupleKey (tk_Object (TupleKey ?req)) ''parent'' []) = Inr ?it"
    by (simp add: example_checker_def tuples_datastore_def example_tuples_def check_request_def
        NewTupleKey_def)
  have ts: "ctx_typesys example_ctx = Some example_model" by (simp add: example_ctx_def)
  have nl: "next_loop (items ?it) [] = (Inr [], [])" by simp
  from empty_reducers_and_expansions [where c = example_checker and req = ?req and iter = ?it
      and rest = "[]" and orc = "in_order 1" and p = "[]" and ctx = example_ctx
      and typesys = example_model and tr = "''parent''" and iter' = ?it and rest' = "[]"
      and cr = "''viewer''"]
  show ?thesis using r1 r2 ts nl by (simp add: check_request_def NewTupleKey_def)
qed

text \<open>
  Claim C10. \<open>exclusion\<close> panics when it is given a number of handlers other than two.
  The \<open>Difference\<close> case of \<open>checkRewrite\<close> hands \<open>checkSetOperation\<close> exactly the
  base and the subtract rewrite, so no evaluation started by \<open>DispatchCheck\<close>, for any
  model, tuples, depth and schedule, ends in the panic of \<open>exclusion\<close> (nor in the one
  of \<open>checkSetOperation\<close>).
\<close>

theorem exclusion_panic_unreachable:
  "(length hs \<noteq> 2 \<longrightarrow> exclusion K hs evs = Panicked (exclusion_panic (length hs)))
   \<and> checkRewrite c orc p ctx req (Userset_Difference base subtract)
       = checkSetOperation c (orc p) exclusionSetOperation exclusion
           [checkRewrite c orc (0 # p) ctx req base, checkRewrite c orc (1 # p) ctx req subtract]
   \<and> DispatchCheck c orc p ctx req \<noteq> Panicked (exclusion_panic n)
   \<and> DispatchCheck c orc p ctx req \<noteq> Panicked (set_operation_panic n)"
proof (intro conjI impI)
  assume "length hs \<noteq> 2"
  then show "exclusion K hs evs = Panicked (exclusion_panic (length hs))"
    by (simp add: exclusion_def)
next
  show "checkRewrite c orc p ctx req (Userset_Difference base subtract)
       = checkSetOperation c (orc p) exclusionSetOperation exclusion
           [checkRewrite c orc (0 # p) ctx req base, checkRewrite c orc (1 # p) ctx req subtract]"
    by (simp add: checkRewrite.simps)
next
  show "DispatchCheck c orc p ctx req \<noteq> Panicked (exclusion_panic n)"
    by (rule evaluator_panics(1) [OF exclusion_panic_distinct])
next
  show "DispatchCheck c orc p ctx req \<noteq> Panicked (set_operation_panic n)"
    by (rule evaluator_panics(1) [OF set_operation_panic_distinct])
qed

theorem exclusion_panic_unreachable_witness:
  "length [Returned (Some \<lparr>Allowed = True\<rparr>) None] \<noteq> 2
   \<and> exclusion 1 [Returned (Some \<lparr>Allowed = True\<rparr>) None] [Recv 0] = Panicked (exclusion_panic 1)"
  using exclusion_panic_unreachable [of "[Returned (Some \<lparr>Allowed = True\<rparr>) None]" 1 "[Recv 0]"]
  by simp

section \<open>Where the code departs from the claims\<close>

text \<open>
  Claim C4 fails in the Check evaluator: \<open>checkDirect\<close> and \<open>checkTTU\<close> read the
  datastore without a filter, while \<open>expandDirect\<close> and \<open>expandTTU\<close> wrap the same
  reads in \<open>FilterInvalidTuples\<close>. Under a model whose \<open>document#viewer\<close> admits users
  of type \<open>user\<close> and usersets \<open>group#member\<close>, the tuple
  \<open>document:1#viewer@employee:sam\<close> is invalid; Check answers allowed from it, ListUsers
  does not list it.
\<close>

theorem check_reads_invalid_tuple:
  "\<not> FilterInvalidTuples example_model (NewTupleKey ''document:1'' ''viewer'' ''employee:sam'')
   \<and> DispatchCheck
        \<lparr>ds = tuples_datastore [NewTupleKey ''document:1'' ''viewer'' ''employee:sam''],
         concurrencyLimit = 10\<rparr>
        (in_order 2) [] example_ctx
        (check_request ''document:1'' ''viewer'' ''employee:sam'' 25)
       = Returned (Some \<lparr>Allowed = True\<rparr>) None
   \<and> expand 10
        (NewListUsersQuery (tuples_datastore [NewTupleKey ''document:1'' ''viewer'' ''employee:sam'']))
        example_ctx (list_users_request ''document'' ''1'' ''viewer'' ''employee'' [])
       = Some ([], Inr None)"
proof (intro conjI)
  have so: "SplitObject ''document:1'' = (''document'', ''1'')"
    "SplitObject ''employee:sam'' = (''employee'', ''sam'')"
    by (simp_all add: SplitObject_def split_at_def)
  have sr: "SplitObjectRelation ''employee:sam'' = (''employee:sam'', [])"
    by (simp add: SplitObjectRelation_def split_at_def)
  have rel: "GetRelation example_model ''document'' ''viewer''
      = Inr \<lparr>Rewrite = Userset_This,
              DirectlyRelatedUserTypes =
                [user_ref ''user'',
                 \<lparr>ref_Type = ''group'', ref_RelationOrWildcard = Some (RefRelation ''member'')\<rparr>]\<rparr>"
    by (simp add: GetRelation_def example_model_def)
  show "\<not> FilterInvalidTuples example_model (NewTupleKey ''document:1'' ''viewer'' ''employee:sam'')"
    by (simp add: FilterInvalidTuples_def NewTupleKey_def so sr rel user_matches_def user_ref_def)
  show "DispatchCheck
        \<lparr>ds = tuples_datastore [NewTupleKey ''document:1'' ''viewer'' ''employee:sam''],
         concurrencyLimit = 10\<rparr>
        (in_order 2) [] example_ctx
        (check_request ''document:1'' ''viewer'' ''employee:sam'' 25)
       = Returned (Some \<lparr>Allowed = True\<rparr>) None"
    by (simp add: DispatchCheck.simps checkRewrite.simps checkDirect.simps checkDirect_fn1_def
        check_request_def NewTupleKey_def example_ctx_def so rel tuples_datastore_def
        union_reducer_def in_order_def copy_response_def GetAllowed_def upt_rec)
  show "expand 10
        (NewListUsersQuery (tuples_datastore [NewTupleKey ''document:1'' ''viewer'' ''employee:sam'']))
        example_ctx (list_users_request ''document'' ''1'' ''viewer'' ''employee'' [])
       = Some ([], Inr None)"
    by (simp add: numeral_nat NewListUsersQuery_def example_ctx_def list_users_request_def rel
        tuples_datastore_def ObjectKey_def NewTupleKey_def FilterInvalidTuples_def so sr
        user_matches_def user_ref_def)
qed

text \<open>
  Claim C5 fails on the \<open>ComputedUserset\<close> path: the request that \<open>expand\<close> builds
  there has no \<open>TargetUserRelation\<close>, unlike the requests built by \<open>expandDirect\<close>
  and \<open>expandTTU\<close>. With \<open>document#can_read\<close> a \<open>ComputedUserset\<close> of
  \<open>document#viewer\<close> and the tuple \<open>document:1#viewer@group:eng#member\<close>, listing the
  \<open>group#member\<close> usersets of \<open>document:1#viewer\<close> emits \<open>group:eng\<close> at the level
  of \<open>group:eng#member\<close>; listing those of \<open>document:1#can_read\<close> reaches the same
  level and emits nothing.
\<close>

theorem expand_computed_userset_drops_target_relation:
  "expand 10 (NewListUsersQuery (tuples_datastore example_tuples)) example_ctx
     (list_users_request ''document'' ''1'' ''viewer'' ''group'' ''member'')
     = Some ([\<lparr>obj_Type = ''group'', obj_Id = ''eng''\<rparr>], Inr None)
   \<and> expand 10 (NewListUsersQuery (tuples_datastore example_tuples)) example_ctx
     (list_users_request ''document'' ''1'' ''can_read'' ''group'' ''member'')
     = Some ([], Inr None)"
proof -
  have so: "SplitObject ''document:1'' = (''document'', ''1'')"
    "SplitObject ''group:eng'' = (''group'', ''eng'')"
    "SplitObject ''user:jon'' = (''user'', ''jon'')"
    "SplitObject ''user:andres'' = (''user'', ''andres'')"
    by (simp_all add: SplitObject_def split_at_def)
  have sr: "SplitObjectRelation ''group:eng#member'' = (''group:eng'', ''member'')"
    "SplitObjectRelation ''user:jon'' = (''user:jon'', [])"
    "SplitObjectRelation ''user:andres'' = (''user:andres'', [])"
    by (simp_all add: SplitObjectRelation_def split_at_def)
  have rel: "GetRelation example_model ''document'' ''viewer''
      = Inr \<lparr>Rewrite = Userset_This,
              DirectlyRelatedUserTypes =
                [user_ref ''user'',
                 \<lparr>ref_Type = ''group'', ref_RelationOrWildcard = Some (RefRelation ''member'')\<rparr>]\<rparr>"
    "GetRelation example_model ''document'' ''can_read''
      = Inr \<lparr>Rewrite = Userset_ComputedUserset ''viewer'', DirectlyRelatedUserTypes = []\<rparr>"
    "GetRelation example_model ''group'' ''member''
      = Inr \<lparr>Rewrite = Userset_This, DirectlyRelatedUserTypes = [user_ref ''user'']\<rparr>"
    by (simp_all add: GetRelation_def example_model_def)
  note defs = numeral_nat NewListUsersQuery_def example_ctx_def list_users_request_def
    tuples_datastore_def example_tuples_def ObjectKey_def NewTupleKey_def
    FilterInvalidTuples_def user_matches_def user_ref_def
  show ?thesis by (simp add: defs so sr rel)
qed

text \<open>
  Claim C6 fails in \<open>checkDirect\<close>: the iterator of \<open>ReadUsersetTuples\<close> is never
  stopped, on no path of the handler, while \<open>checkTTU\<close> defers \<open>iter.Stop()\<close>. On the
  same store the userset expansion leaves its iterator open and the tuple-to-userset
  expansion releases its own.
\<close>

theorem checkDirect_iterator_not_stopped:
  "snd (checkDirect_fn2 example_checker (in_order 1) [1] example_ctx
          (check_request ''document:1'' ''viewer'' ''user:andres'' 25))
     = Some \<lparr>items = [], stopped = False\<rparr>
   \<and> map_sum id snd (checkTTU example_checker (in_order 1) [] example_ctx
          (check_request ''document:1'' ''inherited'' ''user:maria'' 25) ''parent'' ''viewer'')
     = Inr (Some \<lparr>items = [], stopped = True\<rparr>)"
  by (simp add: checkDirect_fn2.simps checkTTU.simps example_checker_def tuples_datastore_def
      example_tuples_def check_request_def NewTupleKey_def example_ctx_def Stop_def Let_def)

section \<open>The materialization of a difference\<close>

lemma key_equal_key_columns:
  "key_equal key_columns =
     ''b.subject_type=s.subject_type AND b.subject_id=s.subject_id AND b.object_type=s.object_type AND b.object_id=s.object_id''"
  by (simp add: key_equal_def key_columns_def)

text \<open>
  Claim C7. For a relation defined by \<open>Difference(base, subtract)\<close> whose operands
  materialize, the statement is named \<open>type_relation\<close> and its SQL is the base statement
  restricted by \<open>WHERE NOT EXISTS\<close> over the subtract statement, the subquery requiring
  the subtract row to equal the base row on the key columns \<open>subject_type\<close>,
  \<open>subject_id\<close>, \<open>object_type\<close> and \<open>object_id\<close>: the form the spec gives.
\<close>

theorem difference_materialization:
  assumes "materializeInternalWithRewrite typesys objectType relation baseRewrite = Inr baseStatement"
    and "materializeInternalWithRewrite typesys objectType relation subtractRewrite = Inr subtractStatement"
  shows "materializeInternalWithRewrite typesys objectType relation
           (Userset_Difference baseRewrite subtractRewrite)
         = Inr \<lparr>stmt_name = objectType @ ''_'' @ relation,
                stmt_sql = spec_difference_sql relation (stmt_sql baseStatement)
                             (stmt_sql subtractStatement)\<rparr>
       \<and> key_equal key_columns =
           ''b.subject_type=s.subject_type AND b.subject_id=s.subject_id AND b.object_type=s.object_type AND b.object_id=s.object_id''"
  using assms
  by (simp add: spec_difference_sql_def key_equal_key_columns statement_name_def)

theorem difference_materialization_witness:
  "materializeInternalWithRewrite team_model ''team'' ''ambassador'' (Userset_ComputedUserset ''member'')
     = Inr (materializeComputedUserset ''team'' ''ambassador'' ''member'')
   \<and> materializeInternalWithRewrite team_model ''team'' ''ambassador'' (Userset_ComputedUserset ''limited'')
     = Inr (materializeComputedUserset ''team'' ''ambassador'' ''limited'')
   \<and> materializeInternal team_model ''team'' ''ambassador''
     = Inr \<lparr>stmt_name = ''team_ambassador'',
            stmt_sql = spec_difference_sql ''ambassador''
              (''SELECT subject_type, subject_id, subject_relation, '' @ q @ ''ambassador'' @ q
                 @ '', object_type,object_id FROM team_member'')
              (''SELECT subject_type, subject_id, subject_relation, '' @ q @ ''ambassador'' @ q
                 @ '', object_type,object_id FROM team_limited'')\<rparr>"
proof -
  have b: "materializeInternalWithRewrite team_model ''team'' ''ambassador''
      (Userset_ComputedUserset ''member'') = Inr (materializeComputedUserset ''team'' ''ambassador'' ''member'')"
    by simp
  have s: "materializeInternalWithRewrite team_model ''team'' ''ambassador''
      (Userset_ComputedUserset ''limited'') = Inr (materializeComputedUserset ''team'' ''ambassador'' ''limited'')"
    by simp
  have rel: "GetRelation team_model ''team'' ''ambassador''
      = Inr \<lparr>Rewrite = Userset_Difference (Userset_ComputedUserset ''member'')
                         (Userset_ComputedUserset ''limited''),
             DirectlyRelatedUserTypes = []\<rparr>"
    by (simp add: GetRelation_def team_model_def)
  from difference_materialization [OF b s] show ?thesis
    using b s rel
    by (simp add: materializeInternal_def materializeComputedUserset_def statement_name_def
        del: materializeInternalWithRewrite.simps)
qed

section \<open>No worker outlives the reducer call\<close>

lemma alive_update:
  "j < length ws \<Longrightarrow>
   length (filter alive (ws[j := w])) + (if alive (ws ! j) then 1 else 0)
     = length (filter alive ws) + (if alive w then 1 else 0)"
proof (induction ws arbitrary: j)
  case Nil
  then show ?case by simp
next
  case (Cons a ws)
  show ?case
  proof (cases j)
    case 0
    then show ?thesis by simp
  next
    case (Suc k)
    with Cons.prems have "k < length ws" by simp
    from Cons.IH [OF this] Suc show ?thesis by simp
  qed
qed

lemma count_started:
  "j < length ws \<Longrightarrow> ws ! j = NotStarted \<Longrightarrow>
   length (filter alive (ws[j := Running])) = Suc (length (filter alive ws))"
  using alive_update [of j ws Running] by (simp add: alive_def)

lemma count_moved:
  "j < length ws \<Longrightarrow> alive (ws ! j) \<Longrightarrow> alive w \<Longrightarrow>
   length (filter alive (ws[j := w])) = length (filter alive ws)"
  using alive_update [of j ws w] by simp

lemma count_exited:
  "j < length ws \<Longrightarrow> alive (ws ! j) \<Longrightarrow>
   Suc (length (filter alive (ws[j := Exited]))) = length (filter alive ws)"
  using alive_update [of j ws Exited] by (simp add: alive_def)

lemma step_wg_counts:
  assumes "wg_counts s" and "step K a s = Some s'"
  shows "wg_counts s'"
proof (cases a)
  case OrchSpawn
  with assms(2) have en: "\<not> orch_exited s" "orch_next s < length (workers s)"
    and s': "s' = s\<lparr>limiter := limiter s + 1, wg := wg s + 1,
                   workers := (workers s)[orch_next s := Running],
                   orch_next := orch_next s + 1\<rparr>"
    by (auto split: if_splits)
  from assms(1) en have ns: "workers s ! orch_next s = NotStarted"
    and nc: "main s \<noteq> Completed" by (auto simp: wg_counts_def)
  from assms(1) en nc count_started [OF en(2) ns] show ?thesis
    by (auto simp: wg_counts_def s' nth_list_update)
next
  case OrchSkip
  with assms show ?thesis by (auto simp: wg_counts_def split: if_splits)
next
  case OrchExit
  with assms show ?thesis by (auto simp: wg_counts_def split: if_splits)
next
  case MainSpawn
  with assms(2) obtain i where st: "main s = Starting i" and en: "i < length (workers s)"
    and s': "s' = s\<lparr>limiter := limiter s + 1, wg := wg s + 1,
                   workers := (workers s)[i := Running],
                   main := (if Suc i = length (workers s) then Looping 0 else Starting (Suc i))\<rparr>"
    by (auto split: if_splits mainphase.splits)
  from assms(1) st en have ns: "workers s ! i = NotStarted" by (auto simp: wg_counts_def)
  from assms(1) st en count_started [OF en ns] show ?thesis
    by (auto simp: wg_counts_def s' nth_list_update)
next
  case (HandlerReturns j)
  with assms(2) have en: "j < length (workers s)" "workers s ! j = Running"
    and s': "s' = s\<lparr>workers := (workers s)[j := Published], results := results s @ [j]\<rparr>"
    by (auto split: if_splits)
  from en have "length (filter alive ((workers s)[j := Published])) = length (filter alive (workers s))"
    by (intro count_moved) (simp_all add: alive_def)
  with assms(1) en show ?thesis
    by (auto simp: wg_counts_def s' nth_list_update)
next
  case (ReleaseSlot j)
  with assms(2) have en: "j < length (workers s)" "workers s ! j = Published"
    and s': "s' = s\<lparr>workers := (workers s)[j := Released], limiter := limiter s - 1\<rparr>"
    by (auto split: if_splits)
  from en have "length (filter alive ((workers s)[j := Released])) = length (filter alive (workers s))"
    by (intro count_moved) (simp_all add: alive_def)
  with assms(1) en show ?thesis
    by (auto simp: wg_counts_def s' nth_list_update)
next
  case (WorkerDone j)
  with assms(2) have en: "j < length (workers s)" "workers s ! j = Released" "0 < wg s"
    and s': "s' = s\<lparr>workers := (workers s)[j := Exited], wg := wg s - 1\<rparr>"
    by (auto split: if_splits)
  from en have c: "Suc (length (filter alive ((workers s)[j := Exited]))) = length (filter alive (workers s))"
    by (intro count_exited) (simp_all add: alive_def)
  with assms(1) en show ?thesis
    by (auto simp: wg_counts_def s' nth_list_update)
next
  case (Receive j d)
  with assms show ?thesis by (auto simp: wg_counts_def split: if_splits mainphase.splits)
next
  case ParentDone
  with assms show ?thesis by (auto simp: wg_counts_def split: if_splits mainphase.splits)
next
  case LoopEnds
  with assms show ?thesis by (auto simp: wg_counts_def split: if_splits mainphase.splits)
next
  case Cancel
  with assms show ?thesis by (auto simp: wg_counts_def split: if_splits)
next
  case WaitReturns
  with assms show ?thesis by (auto simp: wg_counts_def split: if_splits)
next
  case ParentCancelled
  with assms show ?thesis by (auto simp: wg_counts_def)
qed

lemma run_wg_counts:
  "wg_counts s \<Longrightarrow> run K acts s = Some s' \<Longrightarrow> wg_counts s'"
proof (induction acts arbitrary: s)
  case Nil
  then show ?case by simp
next
  case (Cons a acts)
  then obtain t where t: "step K a s = Some t" and r: "run K acts t = Some s'"
    by (auto split: option.splits)
  from step_wg_counts [OF Cons.prems(1) t] r show ?case by (rule Cons.IH)
qed

lemma completed_drained:
  assumes "wg_counts s" and "main s = Completed"
  shows "drained s"
proof -
  from assms have z: "(if orch_exited s then 0 else 1) + length (filter alive (workers s)) = 0"
    by (auto simp: wg_counts_def)
  then have "orch_exited s" by (auto split: if_splits)
  moreover from z have "filter alive (workers s) = []" by (auto split: if_splits)
  then have "list_all (\<lambda>w. \<not> alive w) (workers s)"
    by (simp add: filter_empty_conv list_all_iff)
  ultimately show ?thesis by (simp add: drained_def)
qed

lemma start_wg_counts: "wg_counts (resolver_start n)" "wg_counts exclusion_start"
  by (simp_all add: wg_counts_def resolver_start_def exclusion_start_def alive_def)

text \<open>
  Claim C8. When the call of a reducer completes (\<open>union\<close> and \<open>intersection\<close>
  through \<open>resolver\<close> over any number of handlers, \<open>exclusion\<close> over its two), after
  whatever interleaving of its tasks and whatever made its loop return (a deciding outcome,
  an error, the end of the loop or the cancellation of the context), the orchestrator has
  exited and no started worker is still running: \<open>wg.Wait()\<close> in the deferred function
  does not return before.
\<close>

theorem no_worker_outlives_reducer:
  "(run K acts (resolver_start n) = Some s \<and> main s = Completed \<longrightarrow> drained s)
   \<and> (run K acts' exclusion_start = Some s' \<and> main s' = Completed \<longrightarrow> drained s')
   \<and> (run K bcts (resolver_start n) = Some t \<and> \<not> drained t \<longrightarrow> step K WaitReturns t = None)
   \<and> (run K bcts' exclusion_start = Some t' \<and> \<not> drained t' \<longrightarrow> step K WaitReturns t' = None)"
proof -
  have waits: "step K WaitReturns u = None" if "wg_counts u" and "\<not> drained u" for u
  proof -
    have "wg u \<noteq> 0"
    proof
      assume "wg u = 0"
      with that(1) have "orch_exited u" "filter alive (workers u) = []"
        by (auto simp: wg_counts_def split: if_splits)
      then have "drained u" by (simp add: drained_def filter_empty_conv list_all_iff)
      with that(2) show False by simp
    qed
    then show ?thesis by simp
  qed
  show ?thesis
  proof (intro conjI impI)
    assume "run K acts (resolver_start n) = Some s \<and> main s = Completed"
    then show "drained s"
      using run_wg_counts [OF start_wg_counts(1)] completed_drained by blast
  next
    assume "run K acts' exclusion_start = Some s' \<and> main s' = Completed"
    then show "drained s'"
      using run_wg_counts [OF start_wg_counts(2)] completed_drained by blast
  next
    assume "run K bcts (resolver_start n) = Some t \<and> \<not> drained t"
    then show "step K WaitReturns t = None"
      using run_wg_counts [OF start_wg_counts(1)] waits by blast
  next
    assume "run K bcts' exclusion_start = Some t' \<and> \<not> drained t'"
    then show "step K WaitReturns t' = None"
      using run_wg_counts [OF start_wg_counts(2)] waits by blast
  qed
qed

theorem no_worker_outlives_reducer_witness:
  "map_option main (run 1 [OrchSpawn, HandlerReturns 0, Receive 0 True, Cancel, OrchSkip,
        ReleaseSlot 0, WorkerDone 0, OrchExit, WaitReturns] (resolver_start 2)) = Some Completed
   \<and> map_option drained (run 1 [OrchSpawn, HandlerReturns 0, Receive 0 True, Cancel, OrchSkip,
        ReleaseSlot 0, WorkerDone 0, OrchExit, WaitReturns] (resolver_start 2)) = Some True
   \<and> map_option main (run 2 [MainSpawn, MainSpawn, HandlerReturns 1, Receive 1 True, Cancel,
        HandlerReturns 0, ReleaseSlot 0, ReleaseSlot 1, WorkerDone 0, WorkerDone 1, WaitReturns]
        exclusion_start) = Some Completed
   \<and> map_option drained (run 2 [MainSpawn, MainSpawn, HandlerReturns 1, Receive 1 True, Cancel,
        HandlerReturns 0, ReleaseSlot 0, ReleaseSlot 1, WorkerDone 0, WorkerDone 1, WaitReturns]
        exclusion_start) = Some True
   \<and> map_option drained (run 1 [OrchSpawn, HandlerReturns 0, Receive 0 True, Cancel]
        (resolver_start 2)) = Some False
   \<and> run 1 [OrchSpawn, HandlerReturns 0, Receive 0 True, Cancel, WaitReturns]
        (resolver_start 2) = None
   \<and> map_option drained (run 2 [MainSpawn, MainSpawn, HandlerReturns 1, Receive 1 True, Cancel]
        exclusion_start) = Some False
   \<and> run 2 [MainSpawn, MainSpawn, HandlerReturns 1, Receive 1 True, Cancel, WaitReturns]
        exclusion_start = None"
proof -
  let ?a = "[OrchSpawn, HandlerReturns 0, Receive 0 True, Cancel, OrchSkip,
        ReleaseSlot 0, WorkerDone 0, OrchExit, WaitReturns]"
  let ?a' = "[MainSpawn, MainSpawn, HandlerReturns 1, Receive 1 True, Cancel,
        HandlerReturns 0, ReleaseSlot 0, ReleaseSlot 1, WorkerDone 0, WorkerDone 1, WaitReturns]"
  let ?b = "[OrchSpawn, HandlerReturns 0, Receive 0 True, Cancel]"
  let ?b' = "[MainSpawn, MainSpawn, HandlerReturns 1, Receive 1 True, Cancel]"
  note defs = resolver_start_def exclusion_start_def drained_def alive_def numeral_2_eq_2
  obtain s where s: "run 1 ?a (resolver_start 2) = Some s" "main s = Completed"
    by (simp add: defs)
  obtain s' where s': "run 2 ?a' exclusion_start = Some s'" "main s' = Completed"
    by (simp add: defs)
  obtain t where t: "run 1 ?b (resolver_start 2) = Some t" "\<not> drained t"
    by (simp add: defs)
  obtain t' where t': "run 2 ?b' exclusion_start = Some t'" "\<not> drained t'"
    by (simp add: defs)
  have split: "run K (xs @ [x]) u = (case run K xs u of None \<Rightarrow> None | Some v \<Rightarrow> step K x v)"
    for K xs x u
    by (induction xs arbitrary: u) (auto split: option.splits)
  from no_worker_outlives_reducer [of 1 ?a 2 s] s have d: "drained s" by simp
  from no_worker_outlives_reducer [of 2 _ _ _ ?a' s'] s' have d': "drained s'" by simp
  from no_worker_outlives_reducer [of 1 _ 2 _ _ _ ?b t] t
  have w: "step 1 WaitReturns t = None" by simp
  from no_worker_outlives_reducer [of 2 _ _ _ _ _ _ _ ?b' t'] t'
  have w': "step 2 WaitReturns t' = None" by simp
  from split [of 1 ?b WaitReturns "resolver_start 2"] t w
  have r: "run 1 (?b @ [WaitReturns]) (resolver_start 2) = None" by simp
  from split [of 2 ?b' WaitReturns exclusion_start] t' w'
  have r': "run 2 (?b' @ [WaitReturns]) exclusion_start = None" by simp
  from s s' t t' d d' r r' show ?thesis by simp
qed

end
